theory Spec2Isabelle
  imports Complex_Main "HOL-Library.Sublist"
begin

section \<open>Data model of the clipboard history store\<close>

text \<open>
  Text is held as its UTF-8 byte sequence: a \<^typ>\<open>string\<close> is a list of 8-bit
  characters, so \<open>len(content.encode('utf-8'))\<close> of the source is the length of the list.
  A Python string holding a lone surrogate has no UTF-8 encoding (\<open>encode\<close> raises on
  it) and is no text of the model. An entry is the dictionary built in \<open>add_entry\<close>: the
  text, the ISO-8601 text of the capture instant, and the stored byte size.
\<close>

record entry =
  content :: string
  timestamp :: string
  size_bytes :: int

text \<open>
  \<open>config.json\<close> is a dictionary; \<open>max_entries\<close> is read with
  \<open>config.get('max_entries', 1000)\<close>, so the key may be absent.
\<close>

record config =
  max_entries :: "int option"
  retention_days :: "int option"

text \<open>
  The manager object together with the two files of its data directory. \<open>history_file\<close>
  is the text of \<open>clipboard.json\<close> (\<open>None\<close> when the file does not exist),
  \<open>config_file\<close> the dictionary stored in \<open>config.json\<close>, and \<open>disk_writes\<close>
  counts the files written so far.
\<close>

record store =
  history :: "entry list"
  config :: config
  max_size_bytes :: int
  history_file :: "string option"
  config_file :: "config option"
  disk_writes :: nat

datatype error = JSONDecodeError | ValueError | KeyError | TypeError | OverflowError

section \<open>Python list slices\<close>

text \<open>
  \<open>xs[i:]\<close> and \<open>xs[:j]\<close> for any integer bound: a negative bound counts from the end,
  and a bound outside the list is clamped.
\<close>

definition py_slice_from :: "'a list \<Rightarrow> int \<Rightarrow> 'a list" where
  "py_slice_from xs i =
     (if i < 0 then drop (nat (int (length xs) + i)) xs else drop (nat i) xs)"

definition py_slice_to :: "'a list \<Rightarrow> int \<Rightarrow> 'a list" where
  "py_slice_to xs j =
     (if j < 0 then take (nat (int (length xs) + j)) xs else take (nat j) xs)"

section \<open>Serialisation of the log: \<open>json.dump(history, f, indent=2, ensure_ascii=False)\<close>\<close>

definition hex_digit :: "nat \<Rightarrow> char" where
  "hex_digit d = (if d < 10 then char_of (48 + d) else char_of (87 + d))"

text \<open>
  With \<open>ensure_ascii=False\<close> the encoder escapes the quote, the backslash and the
  control characters below 0x20 only; every other byte is written as it is.
\<close>

definition escape_char :: "char \<Rightarrow> string" where
  "escape_char c =
     (if c = CHR 0x22 then [CHR 0x5C, CHR 0x22]
      else if c = CHR 0x5C then [CHR 0x5C, CHR 0x5C]
      else if c = CHR 0x0A then [CHR 0x5C, CHR ''n'']
      else if c = CHR 0x0D then [CHR 0x5C, CHR ''r'']
      else if c = CHR 0x09 then [CHR 0x5C, CHR ''t'']
      else if c = CHR 0x08 then [CHR 0x5C, CHR ''b'']
      else if c = CHR 0x0C then [CHR 0x5C, CHR ''f'']
      else if (of_char c :: nat) < 32 then
        [CHR 0x5C, CHR ''u'', CHR ''0'', CHR ''0'',
         hex_digit (of_char c div 16), hex_digit (of_char c mod 16)]
      else [c])"

definition dump_str :: "string \<Rightarrow> string" where
  "dump_str s = CHR 0x22 # concat (map escape_char s) @ [CHR 0x22]"

fun show_nat :: "nat \<Rightarrow> string" where
  "show_nat n =
     (if n < 10 then [char_of (48 + n)]
      else show_nat (n div 10) @ [char_of (48 + n mod 10)])"

declare show_nat.simps [simp del]

definition show_int :: "int \<Rightarrow> string" where
  "show_int i = (if i < 0 then CHR ''-'' # show_nat (nat (- i)) else show_nat (nat i))"

definition newline_indent :: "nat \<Rightarrow> string" where
  "newline_indent k = CHR 0x0A # replicate k CHR '' ''"

definition dump_entry :: "entry \<Rightarrow> string" where
  "dump_entry e =
     ''{'' @ newline_indent 4 @ dump_str ''content'' @ '': '' @ dump_str (content e) @
     '','' @ newline_indent 4 @ dump_str ''timestamp'' @ '': '' @ dump_str (timestamp e) @
     '','' @ newline_indent 4 @ dump_str ''size'' @ '': '' @ show_int (size_bytes e) @
     newline_indent 2 @ ''}''"

fun dump_items :: "entry list \<Rightarrow> string" where
  "dump_items [] = []"
| "dump_items [e] = dump_entry e"
| "dump_items (e # es) = dump_entry e @ '','' @ newline_indent 2 @ dump_items es"

definition json_dump :: "entry list \<Rightarrow> string" where
  "json_dump h =
     (if h = [] then ''[]''
      else ''['' @ newline_indent 2 @ dump_items h @ newline_indent 0 @ '']'')"

section \<open>The store\<close>

definition save_data :: "store \<Rightarrow> store" where
  "save_data s =
     s\<lparr>history_file := Some (json_dump (history s)), disk_writes := Suc (disk_writes s)\<rparr>"

definition save_config :: "store \<Rightarrow> store" where
  "save_config s = s\<lparr>config_file := Some (config s), disk_writes := Suc (disk_writes s)\<rparr>"

definition config_get_max_entries :: "store \<Rightarrow> int" where
  "config_get_max_entries s = (case max_entries (config s) of None \<Rightarrow> 1000 | Some m \<Rightarrow> m)"

definition new_entry :: "string \<Rightarrow> string \<Rightarrow> entry" where
  "new_entry now_iso text =
     \<lparr>content = text, timestamp = now_iso, size_bytes = int (length text)\<rparr>"

text \<open>
  \<open>add_entry\<close>; \<open>now_iso\<close> is the value of \<open>datetime.now().isoformat()\<close> read by the
  call. The result is the returned flag and the store after the call.
\<close>

definition add_entry :: "string \<Rightarrow> string \<Rightarrow> store \<Rightarrow> bool \<times> store" where
  "add_entry now_iso text s =
     (if int (length text) > max_size_bytes s then (False, s)
      else if history s \<noteq> [] \<and> content (last (history s)) = text then (False, s)
      else
        let h = history s @ [new_entry now_iso text];
            m = config_get_max_entries s;
            h' = (if int (length h) > m then py_slice_from h (- m) else h)
        in (True, save_data (s\<lparr>history := h'\<rparr>)))"

text \<open>A run of \<open>add_entry\<close> calls, each with its clock reading and its text.\<close>

fun add_entries :: "store \<Rightarrow> (string \<times> string) list \<Rightarrow> store" where
  "add_entries s [] = s"
| "add_entries s ((now_iso, text) # xs) = add_entries (snd (add_entry now_iso text s)) xs"

text \<open>The entry that \<open>add_entry\<close> builds for a clock reading and a text.\<close>

definition entry_of :: "string \<times> string \<Rightarrow> entry" where
  "entry_of p = new_entry (fst p) (snd p)"

section \<open>Example stores\<close>

definition entry_a :: entry where
  "entry_a = new_entry ''2024-03-01T09:00:00'' ''alpha''"

definition full_store :: store where
  "full_store =
     \<lparr>history = [entry_a],
      config = \<lparr>max_entries = Some 1, retention_days = Some 30\<rparr>,
      max_size_bytes = 8, history_file = Some (json_dump [entry_a]),
      config_file = Some \<lparr>max_entries = Some 1, retention_days = Some 30\<rparr>,
      disk_writes = 0\<rparr>"

definition roomy_store :: store where
  "roomy_store =
     \<lparr>history = [entry_a],
      config = \<lparr>max_entries = Some 3, retention_days = Some 30\<rparr>,
      max_size_bytes = 8, history_file = Some (json_dump [entry_a]),
      config_file = Some \<lparr>max_entries = Some 3, retention_days = Some 30\<rparr>,
      disk_writes = 0\<rparr>"

definition empty_store :: store where
  "empty_store =
     \<lparr>history = [],
      config = \<lparr>max_entries = Some 2, retention_days = Some 30\<rparr>,
      max_size_bytes = 8, history_file = None,
      config_file = Some \<lparr>max_entries = Some 2, retention_days = Some 30\<rparr>,
      disk_writes = 0\<rparr>"


section \<open>Instants\<close>

text \<open>
  A naive local \<open>datetime\<close> is its count of microseconds since 0001-01-01T00:00:00. Python
  confines it to the years 1 to 9999, that is to the counts from 0 up to, not including,
  that of the 3652059 days to the end of 9999-12-31.
\<close>

type_synonym datetime = int

definition datetime_end :: int where
  "datetime_end = 3652059 * 86400000000"

text \<open>
  \<open>timedelta(days=d)\<close>, in microseconds: it raises \<open>OverflowError\<close> when the magnitude of
  \<open>d\<close> exceeds 999999999.
\<close>

definition timedelta_days :: "int \<Rightarrow> error + int" where
  "timedelta_days d =
     (if - 999999999 \<le> d \<and> d \<le> 999999999 then Inr (d * 86400000000)
      else Inl OverflowError)"

text \<open>
  A \<open>datetime\<close> minus a \<open>timedelta\<close>: it raises \<open>OverflowError\<close> when the result is not
  a \<open>datetime\<close>.
\<close>

definition datetime_minus :: "datetime \<Rightarrow> int \<Rightarrow> error + datetime" where
  "datetime_minus t delta =
     (if 0 \<le> t - delta \<and> t - delta < datetime_end then Inr (t - delta)
      else Inl OverflowError)"

text \<open>The cutoff \<open>datetime.now() - timedelta(days=days)\<close> of \<open>list_entries\<close> and \<open>clear\<close>.\<close>

definition cutoff_of :: "datetime \<Rightarrow> int \<Rightarrow> error + datetime" where
  "cutoff_of now d =
     (case timedelta_days d of
        Inl err \<Rightarrow> Inl err
      | Inr delta \<Rightarrow> datetime_minus now delta)"

fun parse_digits :: "string \<Rightarrow> int \<Rightarrow> int option" where
  "parse_digits [] acc = Some acc"
| "parse_digits (c # cs) acc =
     (if 48 \<le> (of_char c :: int) \<and> (of_char c :: int) \<le> 57
      then parse_digits cs (10 * acc + (of_char c - 48)) else None)"

definition is_leap :: "int \<Rightarrow> bool" where
  "is_leap y = (y mod 4 = 0 \<and> (y mod 400 = 0 \<or> y mod 100 \<noteq> 0))"

definition month_lengths :: "int \<Rightarrow> int list" where
  "month_lengths y = [31, if is_leap y then 29 else 28, 31, 30, 31, 30, 31, 31, 30, 31, 30, 31]"

definition days_in_month :: "int \<Rightarrow> int \<Rightarrow> int" where
  "days_in_month y m = month_lengths y ! nat (m - 1)"

definition days_before_year :: "int \<Rightarrow> int" where
  "days_before_year y = (y - 1) * 365 + (y - 1) div 4 - (y - 1) div 100 + (y - 1) div 400"

definition days_before_month :: "int \<Rightarrow> int \<Rightarrow> int" where
  "days_before_month y m = sum_list (take (nat (m - 1)) (month_lengths y))"

text \<open>
  \<open>datetime.fromisoformat\<close> on the two forms that \<open>datetime.now().isoformat()\<close> writes,
  \<open>YYYY-MM-DDTHH:MM:SS\<close> and \<open>YYYY-MM-DDTHH:MM:SS.ffffff\<close>; \<open>None\<close> stands for the
  \<open>ValueError\<close> raised on a malformed text. Other texts are taken as malformed.
\<close>

definition fromisoformat :: "string \<Rightarrow> datetime option" where
  "fromisoformat s =
     (if (length s = 19 \<or> (length s = 26 \<and> s ! 19 = CHR ''.'')) \<and>
         s ! 4 = CHR ''-'' \<and> s ! 7 = CHR ''-'' \<and> s ! 10 = CHR ''T'' \<and>
         s ! 13 = CHR '':'' \<and> s ! 16 = CHR '':''
      then
        (case (parse_digits (take 4 s) 0, parse_digits (take 2 (drop 5 s)) 0,
               parse_digits (take 2 (drop 8 s)) 0, parse_digits (take 2 (drop 11 s)) 0,
               parse_digits (take 2 (drop 14 s)) 0, parse_digits (take 2 (drop 17 s)) 0,
               parse_digits (drop 20 s) 0) of
           (Some y, Some mo, Some d, Some h, Some mi, Some se, Some us) \<Rightarrow>
             (if 1 \<le> y \<and> 1 \<le> mo \<and> mo \<le> 12 \<and> 1 \<le> d \<and> d \<le> days_in_month y mo \<and>
                 h < 24 \<and> mi < 60 \<and> se < 60
              then
                let day = days_before_year y + days_before_month y mo + (d - 1);
                    second = ((day * 24 + h) * 60 + mi) * 60 + se
                in Some (second * 1000000 + us)
              else None)
         | _ \<Rightarrow> None)
      else None)"

text \<open>The entry carries a well-formed timestamp not before \<open>cutoff\<close>.\<close>

definition since :: "datetime \<Rightarrow> entry \<Rightarrow> bool" where
  "since cutoff e = (case fromisoformat (timestamp e) of None \<Rightarrow> False | Some t \<Rightarrow> cutoff \<le> t)"

text \<open>The entry carries a well-formed timestamp before \<open>cutoff\<close>.\<close>

definition before :: "datetime \<Rightarrow> entry \<Rightarrow> bool" where
  "before cutoff e = (case fromisoformat (timestamp e) of None \<Rightarrow> False | Some t \<Rightarrow> t < cutoff)"

text \<open>Both entries carry well-formed timestamps, the first not after the second.\<close>

definition not_after :: "entry \<Rightarrow> entry \<Rightarrow> bool" where
  "not_after a b =
     (case fromisoformat (timestamp a) of None \<Rightarrow> False
      | Some t \<Rightarrow> (case fromisoformat (timestamp b) of None \<Rightarrow> False | Some u \<Rightarrow> t \<le> u))"

section \<open>Queries\<close>

text \<open>Python's truth value of an optional integer argument: \<open>None\<close> and \<open>0\<close> are false.\<close>

definition truthy :: "int option \<Rightarrow> bool" where
  "truthy v = (case v of None \<Rightarrow> False | Some n \<Rightarrow> n \<noteq> 0)"

text \<open>
  The comprehension \<open>[e for e in entries if datetime.fromisoformat(e['timestamp']) >= cutoff]\<close>:
  it parses the timestamps in order and raises at the first malformed one.
\<close>

fun filter_since :: "datetime \<Rightarrow> entry list \<Rightarrow> error + entry list" where
  "filter_since cutoff [] = Inr []"
| "filter_since cutoff (e # es) =
     (case fromisoformat (timestamp e) of
        None \<Rightarrow> Inl ValueError
      | Some t \<Rightarrow>
          (case filter_since cutoff es of
             Inl err \<Rightarrow> Inl err
           | Inr kept \<Rightarrow> Inr (if t \<ge> cutoff then e # kept else kept)))"

text \<open>
  \<open>list_entries\<close>, up to the sequence of entries it goes on to print (the empty sequence
  is printed as ``No clipboard history entries found.''); \<open>now\<close> is the value of
  \<open>datetime.now()\<close> read by the call.
\<close>

definition list_entries :: "datetime \<Rightarrow> store \<Rightarrow> int option \<Rightarrow> int option \<Rightarrow> error + entry list" where
  "list_entries now s limit days =
     (case (case days of
              Some d \<Rightarrow>
                (if d \<noteq> 0 then
                   (case cutoff_of now d of
                      Inl err \<Rightarrow> Inl err
                    | Inr cutoff \<Rightarrow> filter_since cutoff (history s))
                 else Inr (history s))
            | None \<Rightarrow> Inr (history s)) of
        Inl err \<Rightarrow> Inl err
      | Inr entries \<Rightarrow>
          Inr (case limit of
                 Some l \<Rightarrow> (if l \<noteq> 0 then py_slice_to (rev entries) l else rev entries)
               | None \<Rightarrow> rev entries))"

text \<open>
  The test \<open>query_lower in entry['content'].lower()\<close>; \<open>lower\<close> is \<open>str.lower\<close>. One
  text occurs in another as a run of code points exactly when its UTF-8 bytes occur in
  the bytes of the other.
\<close>

definition matches :: "(string \<Rightarrow> string) \<Rightarrow> string \<Rightarrow> entry \<Rightarrow> bool" where
  "matches lower query_lower e = sublist query_lower (lower (content e))"

text \<open>The loop of \<open>search\<close> over the entries still to scan, with the matches collected so far.\<close>

fun search_loop ::
  "(string \<Rightarrow> string) \<Rightarrow> string \<Rightarrow> int option \<Rightarrow> entry list \<Rightarrow> entry list \<Rightarrow> entry list" where
  "search_loop lower query_lower limit [] found = found"
| "search_loop lower query_lower limit (e # es) found =
     (if matches lower query_lower e then
        (if truthy limit \<and> int (length (found @ [e])) \<ge> (case limit of Some l \<Rightarrow> l | None \<Rightarrow> 0)
         then found @ [e]
         else search_loop lower query_lower limit es (found @ [e]))
      else search_loop lower query_lower limit es found)"

text \<open>
  \<open>search\<close>, up to the sequence of matches it goes on to print. \<open>str.lower\<close> is the
  interpreter's and is taken as the argument \<open>lower\<close>.
\<close>

definition search :: "(string \<Rightarrow> string) \<Rightarrow> string \<Rightarrow> int option \<Rightarrow> store \<Rightarrow> entry list" where
  "search lower query limit s = search_loop lower (lower query) limit (rev (history s)) []"

text \<open>\<open>str.lower\<close> on ASCII text.\<close>

definition ascii_lower :: "string \<Rightarrow> string" where
  "ascii_lower s =
     map (\<lambda>c. if 65 \<le> (of_char c :: nat) \<and> (of_char c :: nat) \<le> 90
              then char_of ((of_char c :: nat) + 32) else c) s"

text \<open>
  The two ways \<open>get_entry\<close> gives up, by the message printed: ``No clipboard history.'' and
  ``Invalid index. Range: 1-n''.
\<close>

datatype get_failure = NoHistory | InvalidIndex nat

text \<open>\<open>get_entry\<close>, up to the entry it goes on to print and to offer for copying.\<close>

definition get_entry :: "store \<Rightarrow> int \<Rightarrow> get_failure + entry" where
  "get_entry s index =
     (if history s = [] then Inl NoHistory
      else
        let entries = rev (history s)
        in if index < 1 \<or> index > int (length entries) then Inl (InvalidIndex (length entries))
           else Inr (entries ! nat (index - 1)))"

text \<open>
  \<open>clear\<close>; \<open>response\<close> is the line read by \<open>input\<close> on the path without \<open>days\<close>. The
  result is the count printed as removed (on the path with \<open>days\<close>) and the store after
  the call.
\<close>

definition clear ::
  "(string \<Rightarrow> string) \<Rightarrow> datetime \<Rightarrow> string \<Rightarrow> store \<Rightarrow> int option \<Rightarrow> error + (int option \<times> store)" where
  "clear lower now response s days =
     (if truthy days then
        (case cutoff_of now (case days of Some d \<Rightarrow> d | None \<Rightarrow> 0) of
           Inl err \<Rightarrow> Inl err
         | Inr cutoff \<Rightarrow>
             (case filter_since cutoff (history s) of
                Inl err \<Rightarrow> Inl err
              | Inr kept \<Rightarrow>
                  Inr (Some (int (length (history s)) - int (length kept)),
                       save_data (s\<lparr>history := kept\<rparr>))))
      else
        Inr (None,
             save_data (if lower response = ''yes'' then s\<lparr>history := []\<rparr> else s)))"

text \<open>
  The figures of \<open>stats\<close>. \<open>avg_size\<close> is the quotient that Python's true division
  rounds to a float.
\<close>

record stats_result =
  total_entries :: nat
  total_size :: int
  avg_size :: real

definition average :: "int \<Rightarrow> nat \<Rightarrow> real" where
  "average tsize n = (if n > 0 then real_of_int tsize / real n else 0)"

text \<open>
  \<open>stats\<close>, up to the totals and the average; \<open>None\<close> is the early return on an empty log
  (``No clipboard history.'').
\<close>

definition stats :: "store \<Rightarrow> stats_result option" where
  "stats s =
     (if history s = [] then None
      else
        let n = length (history s);
            tsize = sum_list (map size_bytes (history s))
        in Some \<lparr>total_entries = n, total_size = tsize, avg_size = average tsize n\<rparr>)"

definition entry_b :: entry where
  "entry_b = new_entry ''2024-03-05T12:30:00'' ''Beta test''"

definition entry_c :: entry where
  "entry_c = new_entry ''2024-03-09T18:45:10.250000'' ''gamma''"

text \<open>The store of a manager constructed on an empty data directory.\<close>

definition fresh_store :: store where
  "fresh_store =
     \<lparr>history = [],
      config = \<lparr>max_entries = Some 1000, retention_days = Some 30\<rparr>,
      max_size_bytes = 10485760, history_file = None,
      config_file = Some \<lparr>max_entries = Some 1000, retention_days = Some 30\<rparr>,
      disk_writes = 1\<rparr>"

text \<open>The store of a manager constructed on a directory holding a log of three entries.\<close>

definition week_store :: store where
  "week_store =
     fresh_store\<lparr>history := [entry_a, entry_b, entry_c],
       history_file := Some (json_dump [entry_a, entry_b, entry_c])\<rparr>"

text \<open>A log written across a step back of the local clock.\<close>

definition entry_late :: entry where
  "entry_late = new_entry ''2024-03-05T12:30:00'' ''before the clock change''"

definition entry_early :: entry where
  "entry_early = new_entry ''2024-03-05T11:45:00'' ''after the clock change''"

definition clock_back_store :: store where
  "clock_back_store =
     add_entries fresh_store
       [(''2024-03-05T12:30:00'', ''before the clock change''),
        (''2024-03-05T11:45:00'', ''after the clock change'')]"


definition foo_store :: store where
  "foo_store =
     add_entries fresh_store
       [(''2024-03-01T09:00:01'', ''foo1''), (''2024-03-01T09:00:02'', ''bar''),
        (''2024-03-01T09:00:03'', ''foo2''), (''2024-03-01T09:00:04'', ''baz''),
        (''2024-03-01T09:00:05'', ''foo3'')]"

definition sized_store :: store where
  "sized_store =
     add_entries fresh_store
       [(''2024-03-01T09:00:01'', ''0123456789''),
        (''2024-03-01T09:00:02'', ''01234567890123456789''),
        (''2024-03-01T09:00:03'', ''012345678901234567890123456789'')]"

section \<open>Reading the log back: \<open>json.load\<close>\<close>

text \<open>
  The decoder of Python's \<open>json\<close> module on the documents a history file holds: an array
  of objects whose members are strings and integers. \<open>None\<close> stands for the
  \<open>JSONDecodeError\<close> raised on a malformed text. Documents of any other shape (nested
  values, floats, \<open>null\<close>, \<open>true\<close>, \<open>false\<close>) hold no log and are taken as malformed
  too.
\<close>

definition is_ws :: "char \<Rightarrow> bool" where
  "is_ws c = (c = CHR '' '' \<or> c = CHR 0x09 \<or> c = CHR 0x0A \<or> c = CHR 0x0D)"

definition skip_ws :: "string \<Rightarrow> string" where
  "skip_ws cs = dropWhile is_ws cs"

definition is_digit :: "char \<Rightarrow> bool" where
  "is_digit c = (48 \<le> (of_char c :: nat) \<and> (of_char c :: nat) \<le> 57)"

definition hex_val :: "char \<Rightarrow> nat option" where
  "hex_val c =
     (let n = (of_char c :: nat)
      in if 48 \<le> n \<and> n \<le> 57 then Some (n - 48)
         else if 97 \<le> n \<and> n \<le> 102 then Some (n - 87)
         else if 65 \<le> n \<and> n \<le> 70 then Some (n - 55)
         else None)"

definition hex4 :: "string \<Rightarrow> nat option" where
  "hex4 cs =
     (case cs of
        a # b # c # d # _ \<Rightarrow>
          (case (hex_val a, hex_val b, hex_val c, hex_val d) of
             (Some w, Some x, Some y, Some z) \<Rightarrow> Some (((w * 16 + x) * 16 + y) * 16 + z)
           | _ \<Rightarrow> None)
      | _ \<Rightarrow> None)"

text \<open>
  The UTF-8 bytes of \<open>chr(u)\<close>. A surrogate code point has none: a text holding one is not
  a sequence of bytes and lies outside the model.
\<close>

definition utf8_chr :: "nat \<Rightarrow> string option" where
  "utf8_chr u =
     (if u < 0x80 then Some [char_of u]
      else if u < 0x800 then Some [char_of (0xC0 + u div 64), char_of (0x80 + u mod 64)]
      else if 0xD800 \<le> u \<and> u \<le> 0xDFFF then None
      else if u < 0x10000 then
        Some [char_of (0xE0 + u div 4096), char_of (0x80 + u div 64 mod 64),
              char_of (0x80 + u mod 64)]
      else
        Some [char_of (0xF0 + u div 262144), char_of (0x80 + u div 4096 mod 64),
              char_of (0x80 + u div 64 mod 64), char_of (0x80 + u mod 64)])"

text \<open>The table \<open>BACKSLASH\<close> of the decoder.\<close>

definition unescape :: "char \<Rightarrow> char option" where
  "unescape e =
     (if e = CHR 0x22 then Some (CHR 0x22)
      else if e = CHR 0x5C then Some (CHR 0x5C)
      else if e = CHR ''/'' then Some (CHR ''/'')
      else if e = CHR ''b'' then Some (CHR 0x08)
      else if e = CHR ''f'' then Some (CHR 0x0C)
      else if e = CHR ''n'' then Some (CHR 0x0A)
      else if e = CHR ''r'' then Some (CHR 0x0D)
      else if e = CHR ''t'' then Some (CHR 0x09)
      else None)"

text \<open>
  The text after \<open>\u\<close>: four hex digits, and for a high surrogate followed by \<open>\u\<close> and a
  low surrogate the pair. The result is the decoded bytes and the number of characters read.
\<close>

definition decode_u :: "string \<Rightarrow> (string \<times> nat) option" where
  "decode_u cs =
     (case hex4 cs of
        None \<Rightarrow> None
      | Some u \<Rightarrow>
          (if 0xD800 \<le> u \<and> u \<le> 0xDBFF \<and> take 2 (drop 4 cs) = [CHR 0x5C, CHR ''u''] then
             (case hex4 (drop 6 cs) of
                None \<Rightarrow> None
              | Some v \<Rightarrow>
                  (if 0xDC00 \<le> v \<and> v \<le> 0xDFFF
                   then map_option (\<lambda>bs. (bs, 10))
                          (utf8_chr (0x10000 + ((u - 0xD800) * 1024 + (v - 0xDC00))))
                   else None))
           else map_option (\<lambda>bs. (bs, 4)) (utf8_chr u)))"

text \<open>
  \<open>py_scanstring\<close> in strict mode, from the character after the opening quote: the decoded
  string and the text after the closing quote.
\<close>

fun scanstring :: "string \<Rightarrow> string \<Rightarrow> (string \<times> string) option" where
  "scanstring [] acc = None"
| "scanstring (c # cs) acc =
     (if c = CHR 0x22 then Some (acc, cs)
      else if c = CHR 0x5C then
        (case cs of
           [] \<Rightarrow> None
         | e # cs' \<Rightarrow>
             (if e = CHR ''u'' then
                (case decode_u cs' of
                   None \<Rightarrow> None
                 | Some (bs, n) \<Rightarrow> scanstring (drop n cs') (acc @ bs))
              else
                (case unescape e of
                   None \<Rightarrow> None
                 | Some ch \<Rightarrow> scanstring cs' (acc @ [ch]))))
      else if (of_char c :: nat) < 32 then None
      else scanstring cs (acc @ [c]))"

definition digits_value :: "string \<Rightarrow> int" where
  "digits_value ds = foldl (\<lambda>a c. 10 * a + (of_char c - 48)) 0 ds"

text \<open>
  \<open>NUMBER_RE\<close>: an optional minus sign, then \<open>0\<close> or a run of digits not starting with
  \<open>0\<close>. A fraction or an exponent makes a float, which no log holds.
\<close>

definition scan_number :: "string \<Rightarrow> (int \<times> string) option" where
  "scan_number cs =
     (let neg = (cs \<noteq> [] \<and> hd cs = CHR ''-'');
          body = (if neg then tl cs else cs);
          ds = (if body \<noteq> [] \<and> hd body = CHR ''0'' then ''0'' else takeWhile is_digit body);
          rest = drop (length ds) body
      in if ds = [] then None
         else if rest \<noteq> [] \<and> (hd rest = CHR ''.'' \<or> hd rest = CHR ''e'' \<or> hd rest = CHR ''E'')
         then None
         else Some (if neg then - digits_value ds else digits_value ds, rest))"

datatype jscalar = JStr string | JInt int

definition scan_scalar :: "string \<Rightarrow> (jscalar \<times> string) option" where
  "scan_scalar cs =
     (case cs of
        [] \<Rightarrow> None
      | c # r \<Rightarrow>
          (if c = CHR 0x22 then map_option (\<lambda>(s, rest). (JStr s, rest)) (scanstring r [])
           else map_option (\<lambda>(i, rest). (JInt i, rest)) (scan_number cs)))"

text \<open>
  The loop of \<open>JSONObject\<close>, from the character after the opening quote of a member's
  name, with the members read so far: the members of the object and the text after its
  closing brace.
\<close>

function parse_members ::
  "string \<Rightarrow> (string \<times> jscalar) list \<Rightarrow> ((string \<times> jscalar) list \<times> string) option" where
  "parse_members cs pairs =
     (case scanstring cs [] of
        None \<Rightarrow> None
      | Some (key, r1) \<Rightarrow>
          (case skip_ws r1 of
             [] \<Rightarrow> None
           | c1 # r2 \<Rightarrow>
               (if c1 \<noteq> CHR '':'' then None
                else
                  (case scan_scalar (skip_ws r2) of
                     None \<Rightarrow> None
                   | Some (v, r3) \<Rightarrow>
                       (case skip_ws r3 of
                          [] \<Rightarrow> None
                        | c3 # r4 \<Rightarrow>
                            (if c3 = CHR ''}'' then Some (pairs @ [(key, v)], r4)
                             else if c3 = CHR '','' then
                               (case skip_ws r4 of
                                  [] \<Rightarrow> None
                                | c5 # r5 \<Rightarrow>
                                    (if c5 = CHR 0x22
                                     then parse_members r5 (pairs @ [(key, v)])
                                     else None))
                             else None))))))"
  by pat_completeness auto
termination
proof (relation "measure (\<lambda>(cs, pairs). length cs)")
  show "wf (measure (\<lambda>(cs, pairs). length cs))" by simp
next
  fix cs :: string and pairs :: "(string \<times> jscalar) list"
    and x2 key r1 c1 r2 x2a v r3 c3 r4 c5 r5
  assume a: "scanstring cs [] = Some x2" "(key, r1) = x2" "skip_ws r1 = c1 # r2"
    "scan_scalar (skip_ws r2) = Some x2a" "(v, r3) = x2a" "skip_ws r3 = c3 # r4"
    "skip_ws r4 = c5 # r5"
  have scan: "length rest \<le> length ds" if "scanstring ds acc = Some (s, rest)"
    for ds acc s rest
    using that
  proof (induction ds acc rule: scanstring.induct)
    case (1 acc)
    then show ?case by simp
  next
    case (2 c cs acc)
    show ?case
    proof (cases "c = CHR 0x22")
      case True
      with "2.prems" show ?thesis by simp
    next
      case nq: False
      show ?thesis
      proof (cases "c = CHR 0x5C")
        case False
        with nq "2.prems" "2.IH"(3) show ?thesis
          by (auto split: if_splits)
      next
        case True
        with nq "2.prems" obtain e cs' where cs: "cs = e # cs'"
          by (cases cs) auto
        show ?thesis
        proof (cases "e = CHR ''u''")
          case True
          with nq \<open>c = CHR 0x5C\<close> cs "2.prems" obtain bs n
            where d: "decode_u cs' = Some (bs, n)"
              and r: "scanstring (drop n cs') (acc @ bs) = Some (s, rest)"
            by (auto split: option.splits)
          from "2.IH"(1)[OF nq \<open>c = CHR 0x5C\<close> cs True d refl r]
          show ?thesis using cs by simp
        next
          case False
          with nq \<open>c = CHR 0x5C\<close> cs "2.prems" obtain ch
            where u: "unescape e = Some ch"
              and r: "scanstring cs' (acc @ [ch]) = Some (s, rest)"
            by (auto split: option.splits)
          from "2.IH"(2)[OF nq \<open>c = CHR 0x5C\<close> cs False u r]
          show ?thesis using cs by simp
        qed
      qed
    qed
  qed
  have ws: "length r \<le> length ds" if "skip_ws ds = c # r" for ds c r
  proof -
    have "length (skip_ws ds) \<le> length ds"
      unfolding skip_ws_def by (rule length_dropWhile_le)
    with that show ?thesis by simp
  qed
  have num: "length rest \<le> length ds" if "scan_number ds = Some (i, rest)" for ds i rest
    using that by (auto simp: scan_number_def Let_def split: if_splits)
  have scal: "length rest \<le> length ds" if "scan_scalar ds = Some (w, rest)" for ds w rest
    using that scan num
    by (fastforce simp: scan_scalar_def split: list.splits if_splits)
  from a(1,2) have "length r1 \<le> length cs" using scan[of cs "[]" key r1] by simp
  moreover from a(3) have "length r2 < length r1"
    using ws[of r1 c1 r2] length_dropWhile_le[of is_ws r1]
    by (metis skip_ws_def length_Cons less_Suc_eq_le not_less)
  moreover have "length (skip_ws r2) \<le> length r2"
    unfolding skip_ws_def by (rule length_dropWhile_le)
  moreover from a(4,5) have "length r3 \<le> length (skip_ws r2)"
    using scal[of "skip_ws r2" v r3] by simp
  moreover from a(6) have "length r4 \<le> length r3" by (rule ws)
  moreover from a(7) have "length r5 \<le> length r4" by (rule ws)
  ultimately show "((r5, pairs @ [(key, v)]), cs, pairs) \<in> measure (\<lambda>(cs, pairs). length cs)"
    by simp
qed

declare parse_members.simps [simp del]

text \<open>\<open>JSONObject\<close>, from the character after the opening brace.\<close>

definition parse_object :: "string \<Rightarrow> ((string \<times> jscalar) list \<times> string) option" where
  "parse_object cs =
     (case skip_ws cs of
        [] \<Rightarrow> None
      | c # r \<Rightarrow>
          (if c = CHR ''}'' then Some ([], r)
           else if c = CHR 0x22 then parse_members r []
           else None))"

text \<open>
  The loop of \<open>JSONArray\<close>, from the first character of an element, with the elements read
  so far: the elements of the array and the text after its closing bracket.
\<close>

function parse_elements ::
  "string \<Rightarrow> (string \<times> jscalar) list list \<Rightarrow> ((string \<times> jscalar) list list \<times> string) option" where
  "parse_elements cs objs =
     (case cs of
        [] \<Rightarrow> None
      | c # r \<Rightarrow>
          (if c \<noteq> CHR ''{'' then None
           else
             (case parse_object r of
                None \<Rightarrow> None
              | Some (obj, r1) \<Rightarrow>
                  (case skip_ws r1 of
                     [] \<Rightarrow> None
                   | c1 # r2 \<Rightarrow>
                       (if c1 = CHR '']'' then Some (objs @ [obj], r2)
                        else if c1 = CHR '','' then parse_elements (skip_ws r2) (objs @ [obj])
                        else None)))))"
  by pat_completeness auto
termination
proof (relation "measure (\<lambda>(cs, objs). length cs)")
  show "wf (measure (\<lambda>(cs, objs). length cs))" by simp
next
  fix cs :: string and objs :: "(string \<times> jscalar) list list"
    and c r x2 obj r1 c1 r2
  assume a: "cs = c # r" "parse_object r = Some x2" "(obj, r1) = x2" "skip_ws r1 = c1 # r2"
  have ws: "length (skip_ws ds) \<le> length ds" for ds
    unfolding skip_ws_def by (rule length_dropWhile_le)
  have scan: "length rest \<le> length ds" if "scanstring ds acc = Some (s, rest)"
    for ds acc s rest
    using that
  proof (induction ds acc rule: scanstring.induct)
    case (1 acc)
    then show ?case by simp
  next
    case (2 c cs acc)
    show ?case
    proof (cases "c = CHR 0x22")
      case True
      with "2.prems" show ?thesis by simp
    next
      case nq: False
      show ?thesis
      proof (cases "c = CHR 0x5C")
        case False
        with nq "2.prems" "2.IH"(3) show ?thesis
          by (auto split: if_splits)
      next
        case True
        with nq "2.prems" obtain e cs' where cs: "cs = e # cs'"
          by (cases cs) auto
        show ?thesis
        proof (cases "e = CHR ''u''")
          case True
          with nq \<open>c = CHR 0x5C\<close> cs "2.prems" obtain bs n
            where d: "decode_u cs' = Some (bs, n)"
              and r: "scanstring (drop n cs') (acc @ bs) = Some (s, rest)"
            by (auto split: option.splits)
          from "2.IH"(1)[OF nq \<open>c = CHR 0x5C\<close> cs True d refl r]
          show ?thesis using cs by simp
        next
          case False
          with nq \<open>c = CHR 0x5C\<close> cs "2.prems" obtain ch
            where u: "unescape e = Some ch"
              and r: "scanstring cs' (acc @ [ch]) = Some (s, rest)"
            by (auto split: option.splits)
          from "2.IH"(2)[OF nq \<open>c = CHR 0x5C\<close> cs False u r]
          show ?thesis using cs by simp
        qed
      qed
    qed
  qed
  have num: "length rest \<le> length ds" if "scan_number ds = Some (i, rest)" for ds i rest
    using that by (auto simp: scan_number_def Let_def split: if_splits)
  have scal: "length rest \<le> length ds" if "scan_scalar ds = Some (w, rest)" for ds w rest
    using that scan num
    by (fastforce simp: scan_scalar_def split: list.splits if_splits)
  have mem: "length rest \<le> length ds" if "parse_members ds ps = Some (qs, rest)"
    for ds ps qs rest
    using that
  proof (induction ds ps rule: parse_members.induct)
    case (1 ds ps)
    from "1.prems" obtain key s1 where k: "scanstring ds [] = Some (key, s1)"
      by (subst (asm) parse_members.simps) (auto split: option.splits)
    from "1.prems" k obtain s2 where w1: "skip_ws s1 = CHR '':'' # s2"
      by (subst (asm) parse_members.simps) (auto split: list.splits if_splits)
    from "1.prems" k w1 obtain v s3 where sc: "scan_scalar (skip_ws s2) = Some (v, s3)"
      by (subst (asm) parse_members.simps) (auto split: option.splits)
    from "1.prems" k w1 sc obtain c3 s4 where w3: "skip_ws s3 = c3 # s4"
      by (subst (asm) parse_members.simps) (auto split: list.splits)
    have "length s1 \<le> length ds" using scan[OF k] .
    moreover have "length s2 \<le> length (skip_ws s1)" using w1 by simp
    moreover have "length s3 \<le> length (skip_ws s2)" using scal[OF sc] .
    ultimately have l3: "length s3 \<le> length ds" using ws[of s1] ws[of s2] by simp
    show ?case
    proof (cases "c3 = CHR ''}''")
      case True
      with "1.prems" k w1 sc w3 have "rest = s4"
        by (subst (asm) parse_members.simps) simp
      moreover have "length s4 \<le> length (skip_ws s3)" using w3 by simp
      ultimately show ?thesis using ws[of s3] l3 by simp
    next
      case False
      with "1.prems" k w1 sc w3 have comma: "c3 = CHR '',''"
        by (subst (asm) parse_members.simps) (auto split: if_splits)
      with "1.prems" k w1 sc w3 obtain s5 where w5: "skip_ws s4 = CHR 0x22 # s5"
        and rec: "parse_members s5 (ps @ [(key, v)]) = Some (qs, rest)"
        by (subst (asm) parse_members.simps) (auto split: list.splits if_splits)
      have "length rest \<le> length s5"
        using "1.IH"[OF k refl w1 _ sc refl w3 False comma w5 refl rec] by simp
      moreover have "length s5 \<le> length (skip_ws s4)" using w5 by simp
      moreover have "length s4 \<le> length (skip_ws s3)" using w3 by simp
      ultimately show ?thesis using ws[of s4] ws[of s3] l3 by simp
    qed
  qed
  from a(2,3) have "length r1 \<le> length (skip_ws r)"
    using mem by (fastforce simp: parse_object_def split: list.splits if_splits)
  moreover have "length (skip_ws r2) \<le> length r2" by (rule ws)
  moreover from a(4) have "length r2 < length (skip_ws r1)" by simp
  ultimately show "((skip_ws r2, objs @ [obj]), cs, objs) \<in> measure (\<lambda>(cs, objs). length cs)"
    using a(1) ws[of r] ws[of r1] by simp
qed

declare parse_elements.simps [simp del]

text \<open>\<open>JSONArray\<close>, from the character after the opening bracket.\<close>

definition parse_array :: "string \<Rightarrow> ((string \<times> jscalar) list list \<times> string) option" where
  "parse_array cs =
     (case skip_ws cs of
        [] \<Rightarrow> None
      | c # r \<Rightarrow> (if c = CHR '']'' then Some ([], r) else parse_elements (c # r) []))"

text \<open>
  \<open>JSONDecoder.decode\<close>: white space, the value, white space, and nothing more.
\<close>

definition json_loads :: "string \<Rightarrow> (string \<times> jscalar) list list option" where
  "json_loads txt =
     (case skip_ws txt of
        [] \<Rightarrow> None
      | c # r \<Rightarrow>
          (if c \<noteq> CHR ''['' then None
           else
             (case parse_array r of
                None \<Rightarrow> None
              | Some (objs, rest) \<Rightarrow> (if skip_ws rest = [] then Some objs else None))))"

text \<open>
  The decoder builds a dictionary from the members of an object, so a later member
  overrides an earlier one of the same name.
\<close>

definition dict_get :: "(string \<times> jscalar) list \<Rightarrow> string \<Rightarrow> jscalar option" where
  "dict_get obj k = map_of (rev obj) k"

text \<open>
  The entry a loaded dictionary stands for. Python keeps whatever dictionary the file
  holds and raises \<open>KeyError\<close> or \<open>TypeError\<close> where a field is first used; the model
  raises them when the file is loaded.
\<close>

definition entry_of_object :: "(string \<times> jscalar) list \<Rightarrow> error + entry" where
  "entry_of_object obj =
     (case dict_get obj ''content'' of
        None \<Rightarrow> Inl KeyError
      | Some (JInt _) \<Rightarrow> Inl TypeError
      | Some (JStr c) \<Rightarrow>
          (case dict_get obj ''timestamp'' of
             None \<Rightarrow> Inl KeyError
           | Some (JInt _) \<Rightarrow> Inl TypeError
           | Some (JStr t) \<Rightarrow>
               (case dict_get obj ''size'' of
                  None \<Rightarrow> Inl KeyError
                | Some (JStr _) \<Rightarrow> Inl TypeError
                | Some (JInt n) \<Rightarrow> Inr \<lparr>content = c, timestamp = t, size_bytes = n\<rparr>)))"

fun entries_of_objects :: "(string \<times> jscalar) list list \<Rightarrow> error + entry list" where
  "entries_of_objects [] = Inr []"
| "entries_of_objects (obj # objs) =
     (case entry_of_object obj of
        Inl err \<Rightarrow> Inl err
      | Inr e \<Rightarrow>
          (case entries_of_objects objs of
             Inl err \<Rightarrow> Inl err
           | Inr es \<Rightarrow> Inr (e # es)))"

definition json_load :: "string \<Rightarrow> error + entry list" where
  "json_load txt =
     (case json_loads txt of
        None \<Rightarrow> Inl JSONDecodeError
      | Some objs \<Rightarrow> entries_of_objects objs)"

section \<open>Opening the store\<close>

text \<open>
  \<open>load_data\<close>: the log from the history file, or the empty log when there is none; the
  configuration from the configuration file, or the default one, which is then saved.
\<close>

definition load_data :: "store \<Rightarrow> error + store" where
  "load_data s =
     (case (case history_file s of None \<Rightarrow> Inr [] | Some txt \<Rightarrow> json_load txt) of
        Inl err \<Rightarrow> Inl err
      | Inr h \<Rightarrow>
          (case config_file s of
             Some c \<Rightarrow> Inr (s\<lparr>history := h, config := c\<rparr>)
           | None \<Rightarrow>
               Inr (save_config
                 (s\<lparr>history := h,
                    config := \<lparr>max_entries = Some 1000, retention_days = Some 30\<rparr>\<rparr>))))"

text \<open>
  The constructor, on a data directory holding the given history and configuration
  files.
\<close>

definition init :: "string option \<Rightarrow> config option \<Rightarrow> int \<Rightarrow> error + store" where
  "init hfile cfile max_size_mb =
     load_data
       \<lparr>history = [], config = \<lparr>max_entries = None, retention_days = None\<rparr>,
        max_size_bytes = max_size_mb * 1024 * 1024,
        history_file = hfile, config_file = cfile, disk_writes = 0\<rparr>"

text \<open>The members of the object that \<open>save_data\<close> writes for an entry, in the order written.\<close>

definition members_of :: "entry \<Rightarrow> (string \<times> jscalar) list" where
  "members_of e =
     [(''content'', JStr (content e)), (''timestamp'', JStr (timestamp e)),
      (''size'', JInt (size_bytes e))]"

section \<open>Properties of \<open>add_entry\<close>\<close>


lemma py_slice_from_neg: "0 < m \<Longrightarrow> py_slice_from xs (- m) = drop (length xs - nat m) xs"
  by (auto simp: py_slice_from_def nat_diff_distrib' intro!: arg_cong[where f="\<lambda>n. drop n xs"])


lemma add_entry_rejects_unchanged: "\<not> fst (add_entry now x s) \<Longrightarrow> snd (add_entry now x s) = s"
  by (auto simp: add_entry_def Let_def split: if_splits)

lemma add_entry_accept_iff:
  "fst (add_entry now x s) \<longleftrightarrow>
     int (length x) \<le> max_size_bytes s \<and> (history s = [] \<or> content (last (history s)) \<noteq> x)"
  by (auto simp: add_entry_def Let_def)

lemma add_entry_accepted_history:
  "fst (add_entry now x s) \<Longrightarrow>
   history (snd (add_entry now x s)) =
     (let h = history s @ [new_entry now x]; m = config_get_max_entries s
      in if int (length h) > m then py_slice_from h (- m) else h)"
  by (auto simp: add_entry_def Let_def save_data_def split: if_splits)

lemma add_entry_fields [simp]:
  "max_size_bytes (snd (add_entry now x s)) = max_size_bytes s"
  "config (snd (add_entry now x s)) = config s"
  by (auto simp: add_entry_def Let_def save_data_def)

lemma config_get_max_entries_add_entry [simp]:
  "config_get_max_entries (snd (add_entry now x s)) = config_get_max_entries s"
  by (simp add: config_get_max_entries_def)

lemma suffix_py_slice_from: "suffix (py_slice_from xs i) xs"
  by (simp add: py_slice_from_def suffix_drop)

lemma add_entry_history_suffix:
  assumes "fst (add_entry now x s)"
  shows "suffix (history (snd (add_entry now x s))) (history s @ [new_entry now x])"
proof -
  have "suffix (py_slice_from (history s @ [new_entry now x]) (- config_get_max_entries s))
          (history s @ [new_entry now x])"
    by (rule suffix_py_slice_from)
  then show ?thesis
    unfolding add_entry_accepted_history[OF assms] Let_def
    by (simp only: suffix_order.refl split: if_split) blast
qed






lemma add_entries_append:
  "add_entries s (xs @ [(t, x)]) = snd (add_entry t x (add_entries s xs))"
  by (induction s xs rule: add_entries.induct) simp_all

lemma add_entries_fields [simp]:
  "max_size_bytes (add_entries s xs) = max_size_bytes s"
  "config_get_max_entries (add_entries s xs) = config_get_max_entries s"
  by (induction s xs rule: add_entries.induct) simp_all

lemma trim_last_n:
  assumes "0 < n"
  shows "(let h = drop (length es - n) es @ [e]
          in if int (length h) > int n then py_slice_from h (- int n) else h) =
         drop (length (es @ [e]) - n) (es @ [e])"
proof (cases "length es < n")
  case True
  then show ?thesis by (simp add: Let_def)
next
  case False
  then have le: "n \<le> length es" by simp
  have "py_slice_from (drop (length es - n) es @ [e]) (- int n) =
        drop (Suc (length es) - n) (es @ [e])"
    using assms le by (simp add: py_slice_from_neg Suc_diff_le)
  with le show ?thesis by (simp add: Let_def)
qed

lemma add_entries_from_empty:
  assumes "history s = []" "0 < n" "config_get_max_entries s = int n"
  shows "distinct_adj (map snd xs) \<Longrightarrow>
         (\<forall>p\<in>set xs. int (length (snd p)) \<le> max_size_bytes s) \<Longrightarrow>
         history (add_entries s xs) = drop (length xs - n) (map entry_of xs)"
proof (induction xs rule: rev_induct)
  case Nil
  with assms show ?case by simp
next
  case (snoc p xs)
  obtain t x where p: "p = (t, x)" by (cases p)
  let ?s = "add_entries s xs"
  from snoc.prems have da: "distinct_adj (map snd xs)"
    by (auto simp: distinct_adj_append_iff)
  with snoc have IH: "history ?s = drop (length xs - n) (map entry_of xs)" by simp
  have fits: "int (length x) \<le> max_size_bytes ?s"
    using snoc.prems p by simp
  have nodup: "history ?s = [] \<or> content (last (history ?s)) \<noteq> x"
  proof (cases "xs = []")
    case True
    then show ?thesis using IH by simp
  next
    case False
    then have "0 < length xs" by simp
    with assms(2) have "length xs - n < length xs" by arith
    then have ne: "drop (length xs - n) (map entry_of xs) \<noteq> []" by simp
    then have "last (history ?s) = entry_of (last xs)"
      using False IH by (simp add: last_drop last_map)
    moreover from snoc.prems(1) False p have "snd (last xs) \<noteq> x"
      by (auto simp: distinct_adj_append_iff last_map)
    ultimately show ?thesis by (simp add: entry_of_def new_entry_def)
  qed
  from fits nodup have acc: "fst (add_entry t x ?s)"
    by (simp add: add_entry_accept_iff)
  have e: "new_entry t x = entry_of p" by (simp add: p entry_of_def)
  have "history (add_entries s (xs @ [p])) = history (snd (add_entry t x ?s))"
    by (simp add: p add_entries_append)
  also have "\<dots> = drop (length (map entry_of xs @ [entry_of p]) - n) (map entry_of xs @ [entry_of p])"
    using trim_last_n[OF assms(2), of "map entry_of xs" "entry_of p"]
    by (simp add: add_entry_accepted_history[OF acc] IH assms(3) e)
  finally show ?case by simp
qed




lemma filter_since_Inr: "filter_since c h = Inr r \<Longrightarrow> r = filter (since c) h"
  by (induction h arbitrary: r) (auto simp: since_def split: option.splits sum.splits if_splits)

lemma filter_since_valid:
  "\<forall>e\<in>set h. fromisoformat (timestamp e) \<noteq> None \<Longrightarrow> filter_since c h = Inr (filter (since c) h)"
  by (induction h) (auto simp: since_def split: option.splits sum.splits)

lemma filter_since_Inr_valid:
  "filter_since c h = Inr r \<Longrightarrow> \<forall>e\<in>set h. fromisoformat (timestamp e) \<noteq> None"
  by (induction h arbitrary: r) (auto split: option.splits sum.splits)

lemma cutoff_of_Inr: "cutoff_of now d = Inr c \<Longrightarrow> c = now - d * 86400000000"
  by (auto simp: cutoff_of_def timedelta_days_def datetime_minus_def split: if_splits)

lemma clear_days_Inr:
  assumes "truthy days" "clear lower now response s days = Inr (n, s')"
  shows "\<exists>c. cutoff_of now (case days of Some d \<Rightarrow> d | None \<Rightarrow> 0) = Inr c \<and>
             filter_since c (history s) = Inr (history s') \<and>
             n = Some (int (length (history s)) - int (length (history s'))) \<and>
             s' = save_data (s\<lparr>history := history s'\<rparr>)"
proof -
  from assms obtain c where c: "cutoff_of now (case days of Some d \<Rightarrow> d | None \<Rightarrow> 0) = Inr c"
    by (cases "cutoff_of now (case days of Some d \<Rightarrow> d | None \<Rightarrow> 0)") (auto simp: clear_def)
  with assms obtain kept where k: "filter_since c (history s) = Inr kept"
    by (cases "filter_since c (history s)") (auto simp: clear_def)
  from assms c k have r: "n = Some (int (length (history s)) - int (length kept))"
    "s' = save_data (s\<lparr>history := kept\<rparr>)"
    by (auto simp: clear_def)
  then have "history s' = kept" by (simp add: save_data_def)
  with c k r show ?thesis by auto
qed

lemma clear_history_subset:
  assumes "clear lower now response s days = Inr (n, s')"
  shows "set (history s') \<subseteq> set (history s) \<and> max_size_bytes s' = max_size_bytes s"
proof (cases "truthy days")
  case True
  from clear_days_Inr[OF True assms] obtain c
    where k: "filter_since c (history s) = Inr (history s')"
      and s': "s' = save_data (s\<lparr>history := history s'\<rparr>)"
    by blast
  from k have "set (history s') \<subseteq> set (history s)"
    by (auto dest: filter_since_Inr)
  moreover from s' have "max_size_bytes s' = max_size_bytes (save_data (s\<lparr>history := history s'\<rparr>))"
    by simp
  then have "max_size_bytes s' = max_size_bytes s" by (simp add: save_data_def)
  ultimately show ?thesis by simp
next
  case False
  with assms have "s' = save_data (if lower response = ''yes'' then s\<lparr>history := []\<rparr> else s)"
    by (simp add: clear_def)
  then show ?thesis by (simp add: save_data_def)
qed

lemma add_entry_size_bound:
  assumes "\<forall>e\<in>set (history s). size_bytes e \<le> max_size_bytes s"
  shows "\<forall>e\<in>set (history (snd (add_entry now x s))). size_bytes e \<le> max_size_bytes s"
proof (cases "fst (add_entry now x s)")
  case True
  then have "int (length x) \<le> max_size_bytes s"
    by (simp add: add_entry_accept_iff)
  with assms have "\<forall>e\<in>set (history s @ [new_entry now x]). size_bytes e \<le> max_size_bytes s"
    by (auto simp: new_entry_def)
  moreover have "set (history (snd (add_entry now x s))) \<subseteq> set (history s @ [new_entry now x])"
    using add_entry_history_suffix[OF True] by (rule set_mono_suffix)
  ultimately show ?thesis by blast
next
  case False
  with assms show ?thesis by (simp add: add_entry_rejects_unchanged)
qed

lemma add_entries_size_bound:
  "\<forall>e\<in>set (history s). size_bytes e \<le> max_size_bytes s \<Longrightarrow>
   \<forall>e\<in>set (history (add_entries s xs)). size_bytes e \<le> max_size_bytes s"
proof (induction s xs rule: add_entries.induct)
  case (1 s)
  then show ?case by simp
next
  case (2 s t x xs)
  from add_entry_size_bound[OF "2.prems", of t x]
  have "\<forall>e\<in>set (history (snd (add_entry t x s))). size_bytes e \<le> max_size_bytes (snd (add_entry t x s))"
    by simp
  from "2.IH"[OF this] show ?case by simp
qed

text \<open>
  C2. A text whose UTF-8 byte length exceeds \<open>max_size_bytes\<close> is rejected: \<open>add_entry\<close>
  returns false and hands back the store untouched, so nothing is appended and no file is
  written. The check precedes the append, hence a log whose stored sizes are within the
  limit stays so after \<open>add_entry\<close>, and every log grown from the empty one has all its
  sizes within the limit. \<open>clear\<close>, the other operation that changes the log, only
  removes entries and so keeps the limit too.
\<close>

theorem add_entry_rejects_oversize:
  "(max_size_bytes s < int (length x) \<longrightarrow> add_entry now x s = (False, s)) \<and>
   ((\<forall>e\<in>set (history r). size_bytes e \<le> max_size_bytes r) \<longrightarrow>
      (\<forall>e\<in>set (history (snd (add_entry ta y r))). size_bytes e \<le> max_size_bytes r)) \<and>
   (history q = [] \<longrightarrow>
      (\<forall>e\<in>set (history (add_entries q xs)). size_bytes e \<le> max_size_bytes q)) \<and>
   ((\<forall>e\<in>set (history r). size_bytes e \<le> max_size_bytes r) \<and>
    clear lower tb response r days = Inr (n, r') \<longrightarrow>
      (\<forall>e\<in>set (history r'). size_bytes e \<le> max_size_bytes r'))"
proof (intro conjI impI)
  assume "max_size_bytes s < int (length x)"
  then show "add_entry now x s = (False, s)"
    by (simp add: add_entry_def)
next
  assume "\<forall>e\<in>set (history r). size_bytes e \<le> max_size_bytes r"
  then show "\<forall>e\<in>set (history (snd (add_entry ta y r))). size_bytes e \<le> max_size_bytes r"
    by (rule add_entry_size_bound)
next
  assume "history q = []"
  then have "\<forall>e\<in>set (history q). size_bytes e \<le> max_size_bytes q" by simp
  then show "\<forall>e\<in>set (history (add_entries q xs)). size_bytes e \<le> max_size_bytes q"
    by (rule add_entries_size_bound)
next
  assume a: "(\<forall>e\<in>set (history r). size_bytes e \<le> max_size_bytes r) \<and>
    clear lower tb response r days = Inr (n, r')"
  then have "set (history r') \<subseteq> set (history r) \<and> max_size_bytes r' = max_size_bytes r"
    using clear_history_subset by blast
  with a show "\<forall>e\<in>set (history r'). size_bytes e \<le> max_size_bytes r'"
    by auto
qed

lemma ascii_lower_no: "ascii_lower ''no'' = ''no''"
  by code_simp

text \<open>C2, with a limit of 8 bytes and a text of 12.\<close>

theorem add_entry_rejects_oversize_witness:
  "max_size_bytes roomy_store < int (length ''far too long'') \<and>
   add_entry ''2024-03-01T09:00:06'' ''far too long'' roomy_store = (False, roomy_store) \<and>
   map size_bytes (history roomy_store) = [5] \<and>
   max_size_bytes roomy_store = 8 \<and>
   map size_bytes (history (snd (add_entry ''2024-03-01T09:00:06'' ''beta'' roomy_store))) =
     [5, 4] \<and>
   map size_bytes (history (add_entries empty_store
      [(''2024-03-01T09:00:06'', ''beta''), (''2024-03-01T09:00:07'', ''far too long'')])) =
     [4] \<and>
   clear ascii_lower 63845658000000000 ''no'' roomy_store None =
     Inr (None, save_data roomy_store)"
  using add_entry_rejects_oversize [where s = roomy_store and x = "''far too long''"
      and now = "''2024-03-01T09:00:06''" and r = roomy_store and y = "''beta''"
      and ta = "''2024-03-01T09:00:06''" and q = empty_store
      and xs = "[(''2024-03-01T09:00:06'', ''beta''), (''2024-03-01T09:00:07'', ''far too long'')]"
      and lower = ascii_lower and tb = 63845658000000000 and response = "''no''"
      and days = None and n = None and r' = "save_data roomy_store"]
  by (simp add: roomy_store_def empty_store_def entry_a_def new_entry_def add_entry_def
      config_get_max_entries_def Let_def save_data_def clear_def truthy_def ascii_lower_no)

lemma add_entry_length_le:
  assumes "0 < n" "config_get_max_entries s = int n" "length (history s) \<le> n"
  shows "length (history (snd (add_entry now x s))) \<le> n"
proof (cases "fst (add_entry now x s)")
  case True
  with assms show ?thesis
    by (auto simp: add_entry_accepted_history Let_def py_slice_from_neg)
next
  case False
  with assms show ?thesis by (simp add: add_entry_rejects_unchanged)
qed

text \<open>
  C3. With \<open>max_entries = n > 0\<close> and a log of at most \<open>n\<close> entries, the log has at most
  \<open>n\<close> entries after \<open>add_entry\<close>. When the accepted append makes it longer than \<open>n\<close>,
  the result is the appended log without its oldest entries, of length exactly \<open>n\<close>. After
  \<open>m + k\<close> texts, none equal to the one before it and each within the size limit, are added to
  an empty store with \<open>max_entries = m\<close>, the log is the last \<open>m\<close> of the entries built, and
  its oldest entry is the \<open>(k+1)\<close>-th one added.
\<close>

theorem add_entry_capacity:
  "(0 < n \<and> config_get_max_entries s = int n \<and> length (history s) \<le> n \<longrightarrow>
      length (history (snd (add_entry now x s))) \<le> n) \<and>
   (0 < n \<and> config_get_max_entries s = int n \<and> fst (add_entry now x s) \<and>
    n < length (history s @ [new_entry now x]) \<longrightarrow>
      history (snd (add_entry now x s)) =
        drop (length (history s @ [new_entry now x]) - n) (history s @ [new_entry now x]) \<and>
      length (history (snd (add_entry now x s))) = n) \<and>
   (history r = [] \<and> 0 < m \<and> config_get_max_entries r = int m \<and> length xs = m + k \<and>
    distinct_adj (map snd xs) \<and> (\<forall>p\<in>set xs. int (length (snd p)) \<le> max_size_bytes r) \<longrightarrow>
      history (add_entries r xs) = drop k (map entry_of xs) \<and>
      length (history (add_entries r xs)) = m \<and>
      hd (history (add_entries r xs)) = entry_of (xs ! k))"
proof (intro conjI impI)
  assume "0 < n \<and> config_get_max_entries s = int n \<and> length (history s) \<le> n"
  then show "length (history (snd (add_entry now x s))) \<le> n"
    by (simp add: add_entry_length_le)
next
  assume a: "0 < n \<and> config_get_max_entries s = int n \<and> fst (add_entry now x s) \<and>
    n < length (history s @ [new_entry now x])"
  then show "history (snd (add_entry now x s)) =
      drop (length (history s @ [new_entry now x]) - n) (history s @ [new_entry now x])"
    by (simp add: add_entry_accepted_history Let_def py_slice_from_neg)
  with a show "length (history (snd (add_entry now x s))) = n"
    by simp
next
  assume a: "history r = [] \<and> 0 < m \<and> config_get_max_entries r = int m \<and> length xs = m + k \<and>
    distinct_adj (map snd xs) \<and> (\<forall>p\<in>set xs. int (length (snd p)) \<le> max_size_bytes r)"
  then have h: "history (add_entries r xs) = drop (length xs - m) (map entry_of xs)"
    by (intro add_entries_from_empty) simp_all
  with a show "history (add_entries r xs) = drop k (map entry_of xs)" by simp
  with a show "length (history (add_entries r xs)) = m" by simp
  from a have "k < length (map entry_of xs)" by simp
  then have "hd (drop k (map entry_of xs)) = map entry_of xs ! k"
    by (rule hd_drop_conv_nth)
  with a h show "hd (history (add_entries r xs)) = entry_of (xs ! k)" by simp
qed

text \<open>C3, with one stored entry and \<open>max_entries = 1\<close>, and with three texts added at \<open>max_entries = 2\<close>.\<close>

theorem add_entry_capacity_witness:
  "length (history (snd (add_entry ''2024-03-01T09:00:06'' ''beta'' full_store))) \<le> 1 \<and>
   history (snd (add_entry ''2024-03-01T09:00:06'' ''beta'' full_store)) =
     [new_entry ''2024-03-01T09:00:06'' ''beta''] \<and>
   history (add_entries empty_store
      [(''2024-03-01T09:00:06'', ''beta''), (''2024-03-01T09:00:07'', ''gamma''),
       (''2024-03-01T09:00:08'', ''delta'')]) =
     [new_entry ''2024-03-01T09:00:07'' ''gamma'', new_entry ''2024-03-01T09:00:08'' ''delta''] \<and>
   hd (history (add_entries empty_store
      [(''2024-03-01T09:00:06'', ''beta''), (''2024-03-01T09:00:07'', ''gamma''),
       (''2024-03-01T09:00:08'', ''delta'')])) = new_entry ''2024-03-01T09:00:07'' ''gamma''"
  using add_entry_capacity [where n = 1 and s = full_store and x = "''beta''"
      and now = "''2024-03-01T09:00:06''" and r = empty_store and m = 2 and k = 1
      and xs = "[(''2024-03-01T09:00:06'', ''beta''), (''2024-03-01T09:00:07'', ''gamma''),
       (''2024-03-01T09:00:08'', ''delta'')]"]
  by (simp add: full_store_def empty_store_def entry_a_def new_entry_def entry_of_def
      config_get_max_entries_def add_entry_accept_iff)

section \<open>Properties of the queries\<close>

lemma py_slice_to_pos: "0 < l \<Longrightarrow> py_slice_to xs l = take (nat l) xs"
  by (simp add: py_slice_to_def)

lemma py_slice_to_take: "\<exists>k. py_slice_to xs l = take k xs"
  by (auto simp: py_slice_to_def)

lemma list_entries_Inr:
  assumes "list_entries now s limit days = Inr r"
  shows "\<exists>k P. r = take k (rev (filter P (history s)))"
proof -
  obtain kept where k: "(case days of
              Some d \<Rightarrow>
                (if d \<noteq> 0 then
                   (case cutoff_of now d of
                      Inl err \<Rightarrow> Inl err
                    | Inr cutoff \<Rightarrow> filter_since cutoff (history s))
                 else Inr (history s))
            | None \<Rightarrow> Inr (history s)) = Inr kept"
    and r: "r = (case limit of
                 Some l \<Rightarrow> (if l \<noteq> 0 then py_slice_to (rev kept) l else rev kept)
               | None \<Rightarrow> rev kept)"
    using assms by (auto simp: list_entries_def split: sum.splits)
  from k have "\<exists>P. kept = filter P (history s)"
  proof (cases days)
    case None
    with k have "kept = filter (\<lambda>_. True) (history s)" by simp
    then show ?thesis by blast
  next
    case (Some d)
    show ?thesis
    proof (cases "d = 0")
      case True
      with k Some have "kept = filter (\<lambda>_. True) (history s)" by simp
      then show ?thesis by blast
    next
      case False
      with k Some obtain c where "filter_since c (history s) = Inr kept"
        by (cases "cutoff_of now d") auto
      then have "kept = filter (since c) (history s)"
        by (rule filter_since_Inr)
      then show ?thesis by blast
    qed
  qed
  then obtain P where P: "kept = filter P (history s)" by blast
  have "\<exists>k. r = take k (rev kept)"
  proof (cases limit)
    case None
    with r have "r = take (length (rev kept)) (rev kept)" by simp
    then show ?thesis by blast
  next
    case (Some l)
    show ?thesis
    proof (cases "l = 0")
      case True
      with r Some have "r = take (length (rev kept)) (rev kept)" by simp
      then show ?thesis by blast
    next
      case False
      with r Some show ?thesis using py_slice_to_take[of "rev kept" l] by simp
    qed
  qed
  with P show ?thesis by blast
qed

lemma list_entries_order:
  assumes "sorted_wrt not_after (history s)" "list_entries now s limit days = Inr (e # es)"
  shows "\<forall>e'\<in>set es. not_after e' e"
proof -
  from list_entries_Inr[OF assms(2)] obtain k P
    where r: "e # es = take k (rev (filter P (history s)))" by blast
  from assms(1) have "sorted_wrt not_after (filter P (history s))"
    by (rule sorted_wrt_filter)
  then have "sorted_wrt (\<lambda>a b. not_after b a) (rev (filter P (history s)))"
    by (simp add: sorted_wrt_rev)
  then have "sorted_wrt (\<lambda>a b. not_after b a) (take k (rev (filter P (history s))))"
    by (rule sorted_wrt_take)
  with r have "sorted_wrt (\<lambda>a b. not_after b a) (e # es)" by simp
  then show ?thesis by simp
qed

text \<open>
  C5 (as amended). On a log whose timestamps are well-formed, \<open>list_entries\<close> with a
  non-zero \<open>days\<close> for which \<open>now - days\<close> is a \<open>datetime\<close> keeps the entries with
  timestamp \<open>>= now - days\<close>, then reverses, then, for a positive \<open>limit\<close>, keeps the first
  \<open>limit\<close> entries; without \<open>days\<close> it reverses the whole log and truncates in the same
  way. A \<open>limit\<close> of 0 is taken as no limit. The result is in reverse order of insertion,
  so when the timestamps of the log do not decrease in order of insertion, the timestamp
  of the first result is not before that of any other result.
\<close>

theorem list_entries_newest_first:
  "((\<forall>e\<in>set (history s). fromisoformat (timestamp e) \<noteq> None) \<and> d \<noteq> 0 \<and>
    cutoff_of now d = Inr c \<longrightarrow>
      c = now - d * 86400000000 \<and>
      list_entries now s None (Some d) = Inr (rev (filter (since c) (history s))) \<and>
      (0 < l \<longrightarrow> list_entries now s (Some l) (Some d) =
        Inr (take (nat l) (rev (filter (since c) (history s)))))) \<and>
   list_entries now s None None = Inr (rev (history s)) \<and>
   (0 < l \<longrightarrow> list_entries now s (Some l) None = Inr (take (nat l) (rev (history s)))) \<and>
   list_entries now s (Some 0) days = list_entries now s None days \<and>
   (sorted_wrt not_after (history s) \<and> list_entries now s limit days = Inr (e # es) \<longrightarrow>
      (\<forall>e'\<in>set es. not_after e' e))"
proof (intro conjI impI)
  assume a: "(\<forall>e\<in>set (history s). fromisoformat (timestamp e) \<noteq> None) \<and> d \<noteq> 0 \<and>
    cutoff_of now d = Inr c"
  then show "c = now - d * 86400000000"
    by (simp add: cutoff_of_Inr)
  from a show "list_entries now s None (Some d) = Inr (rev (filter (since c) (history s)))"
    by (simp add: list_entries_def filter_since_valid)
  assume "0 < l"
  with a show "list_entries now s (Some l) (Some d) =
        Inr (take (nat l) (rev (filter (since c) (history s))))"
    by (simp add: list_entries_def filter_since_valid py_slice_to_pos)
next
  show "list_entries now s None None = Inr (rev (history s))"
    by (simp add: list_entries_def)
next
  assume "0 < l"
  then show "list_entries now s (Some l) None = Inr (take (nat l) (rev (history s)))"
    by (simp add: list_entries_def py_slice_to_pos)
next
  show "list_entries now s (Some 0) days = list_entries now s None days"
    by (simp add: list_entries_def split: sum.splits)
next
  assume "sorted_wrt not_after (history s) \<and> list_entries now s limit days = Inr (e # es)"
  then show "\<forall>e'\<in>set es. not_after e' e"
    using list_entries_order by blast
qed

lemma iso_entry_a: "fromisoformat ''2024-03-01T09:00:00'' = Some 63844880400000000"
  by code_simp

lemma iso_entry_b: "fromisoformat ''2024-03-05T12:30:00'' = Some 63845238600000000"
  by code_simp

lemma iso_entry_c: "fromisoformat ''2024-03-09T18:45:10.250000'' = Some 63845606710250000"
  by code_simp

lemma iso_entry_early: "fromisoformat ''2024-03-05T11:45:00'' = Some 63845235900000000"
  by code_simp

lemmas iso_examples = iso_entry_a iso_entry_b iso_entry_c iso_entry_early

lemmas example_defs = week_store_def fresh_store_def entry_a_def
  entry_b_def entry_c_def entry_late_def entry_early_def new_entry_def

lemma clock_back_store_history: "history clock_back_store = [entry_late, entry_early]"
  by (simp add: clock_back_store_def fresh_store_def add_entry_def config_get_max_entries_def
      Let_def save_data_def entry_late_def entry_early_def new_entry_def)

lemma cutoff_week: "cutoff_of 63845658000000000 7 = Inr 63845053200000000"
  by (simp add: cutoff_of_def timedelta_days_def datetime_minus_def datetime_end_def)

lemma cutoff_overflow: "cutoff_of 63845658000000000 999999 = Inl OverflowError"
  by (simp add: cutoff_of_def timedelta_days_def datetime_minus_def datetime_end_def)

text \<open>C5, on a log of three entries read on 2024-03-10 at 09:00.\<close>

theorem list_entries_newest_first_witness:
  "cutoff_of 63845658000000000 7 = Inr 63845053200000000 \<and>
   list_entries 63845658000000000 week_store None (Some 7) = Inr [entry_c, entry_b] \<and>
   list_entries 63845658000000000 week_store (Some 1) (Some 7) = Inr [entry_c] \<and>
   list_entries 63845658000000000 week_store None None = Inr [entry_c, entry_b, entry_a] \<and>
   list_entries 63845658000000000 week_store (Some 1) None = Inr [entry_c] \<and>
   list_entries 63845658000000000 week_store (Some 0) (Some 7) = Inr [entry_c, entry_b] \<and>
   not_after entry_b entry_c"
  using list_entries_newest_first [where s = week_store and d = 7 and l = 1
      and now = 63845658000000000 and c = 63845053200000000 and days = "Some 7"
      and limit = None and e = entry_c and es = "[entry_b]"]
  by (simp add: example_defs iso_examples since_def not_after_def cutoff_week)

text \<open>
  C5 as it was stated: with \<open>limit = 0\<close> all three entries are listed rather than none; on
  a log written across a step back of the local clock the first result carries an earlier
  timestamp than the second; and with \<open>days = 999999\<close> on 2024-03-10 the cutoff would lie
  before year 1, so the call raises \<open>OverflowError\<close> and lists nothing.
\<close>

theorem list_entries_counterexample:
  "list_entries 63845658000000000 week_store (Some 0) None = Inr [entry_c, entry_b, entry_a] \<and>
   list_entries 63845658000000000 clock_back_store None None = Inr [entry_early, entry_late] \<and>
   fromisoformat (timestamp entry_early) = Some 63845235900000000 \<and>
   fromisoformat (timestamp entry_late) = Some 63845238600000000 \<and>
   \<not> not_after entry_late entry_early \<and>
   list_entries 63845658000000000 week_store None (Some 999999) = Inl OverflowError"
  by (simp add: clock_back_store_history list_entries_def cutoff_overflow)
    (simp add: example_defs iso_examples not_after_def)

lemma search_loop_unlimited:
  "\<not> truthy limit \<Longrightarrow>
   search_loop lower q limit es found = found @ filter (matches lower q) es"
  by (induction es arbitrary: found) simp_all

lemma search_loop_limited:
  "0 < l \<Longrightarrow> int (length found) < l \<Longrightarrow>
   search_loop lower q (Some l) es found =
     found @ take (nat l - length found) (filter (matches lower q) es)"
proof (induction es arbitrary: found)
  case Nil
  then show ?case by simp
next
  case (Cons e es)
  show ?case
  proof (cases "matches lower q e")
    case False
    with Cons show ?thesis by simp
  next
    case True
    show ?thesis
    proof (cases "int (length (found @ [e])) \<ge> l")
      case full: True
      with Cons.prems have "nat l - length found = Suc 0" by simp
      with True full Cons.prems show ?thesis by (simp add: truthy_def)
    next
      case more: False
      then have "int (length (found @ [e])) < l" by simp
      from Cons.IH[OF Cons.prems(1) this] True more Cons.prems
      show ?thesis
        by (simp add: truthy_def take_Cons' Suc_diff_Suc nat_less_iff)
    qed
  qed
qed

lemma search_foo_example:
  "map content (search ascii_lower ''foo'' (Some 2) foo_store) = [''foo3'', ''foo2'']"
  by code_simp

lemma search_foo_upper_example:
  "map content (search ascii_lower ''FOO'' (Some 1) foo_store) = [''foo3'']"
  by code_simp

lemma search_foo_zero_example:
  "map content (search ascii_lower ''foo'' (Some 0) foo_store) = [''foo3'', ''foo2'', ''foo1'']"
  by code_simp

lemma foo_store_history:
  "map content (history foo_store) = [''foo1'', ''bar'', ''foo2'', ''baz'', ''foo3'']"
  by code_simp

text \<open>
  C7 (as amended). \<open>search\<close> tests each entry for \<open>lower(query)\<close> occurring in
  \<open>lower(content)\<close>, scanning the log from its newest entry. For a positive \<open>limit\<close> the
  result is the first \<open>limit\<close> matches of that scan, newest first, and the scan stops at the
  \<open>limit\<close>-th match: what follows it in the log has no effect. Without a limit the result
  is all the matches, and a \<open>limit\<close> of 0 is taken as no limit. For \<open>foo1\<close>, \<open>bar\<close>,
  \<open>foo2\<close>, \<open>baz\<close>, \<open>foo3\<close> appended in this order, \<open>search("foo", limit=2)\<close> is
  \<open>foo3\<close>, \<open>foo2\<close>.
\<close>

theorem search_limit:
  "(0 < l \<longrightarrow>
      search lower q (Some l) s =
        take (nat l) (filter (matches lower (lower q)) (rev (history s)))) \<and>
   search lower q None s = filter (matches lower (lower q)) (rev (history s)) \<and>
   search lower q (Some 0) s = search lower q None s \<and>
   (0 < l \<and> nat l \<le> length (filter (matches lower (lower q)) scanned) \<longrightarrow>
      search_loop lower (lower q) (Some l) (scanned @ rest) [] =
        search_loop lower (lower q) (Some l) scanned []) \<and>
   map content (history foo_store) = [''foo1'', ''bar'', ''foo2'', ''baz'', ''foo3''] \<and>
   map content (search ascii_lower ''foo'' (Some 2) foo_store) = [''foo3'', ''foo2'']"
proof (intro conjI impI)
  assume "0 < l"
  then show "search lower q (Some l) s =
      take (nat l) (filter (matches lower (lower q)) (rev (history s)))"
    by (simp add: search_def search_loop_limited)
next
  show "search lower q None s = filter (matches lower (lower q)) (rev (history s))"
    by (simp add: search_def search_loop_unlimited truthy_def)
  show "search lower q (Some 0) s = search lower q None s"
    by (simp add: search_def search_loop_unlimited truthy_def)
next
  assume "0 < l \<and> nat l \<le> length (filter (matches lower (lower q)) scanned)"
  then show "search_loop lower (lower q) (Some l) (scanned @ rest) [] =
      search_loop lower (lower q) (Some l) scanned []"
    by (simp add: search_loop_limited)
next
  show "map content (history foo_store) = [''foo1'', ''bar'', ''foo2'', ''baz'', ''foo3'']"
    by (rule foo_store_history)
  show "map content (search ascii_lower ''foo'' (Some 2) foo_store) = [''foo3'', ''foo2'']"
    by (rule search_foo_example)
qed

lemma foo_scanned_matches:
  "length (filter (matches ascii_lower (ascii_lower ''FOO'')) (take 3 (rev (history foo_store)))) = 2"
  by code_simp

text \<open>C7, for the query \<open>FOO\<close> on the same log.\<close>

theorem search_limit_witness:
  "map content (search ascii_lower ''FOO'' (Some 1) foo_store) = [''foo3''] \<and>
   search ascii_lower ''FOO'' (Some 1) foo_store =
     take 1 (filter (matches ascii_lower (ascii_lower ''FOO'')) (rev (history foo_store))) \<and>
   search_loop ascii_lower (ascii_lower ''FOO'') (Some 2)
       (take 3 (rev (history foo_store)) @ drop 3 (rev (history foo_store))) [] =
     search_loop ascii_lower (ascii_lower ''FOO'') (Some 2) (take 3 (rev (history foo_store))) []"
  using search_limit [where l = 1 and lower = ascii_lower and q = "''FOO''" and s = foo_store]
    search_limit [where l = 2 and lower = ascii_lower and q = "''FOO''"
      and scanned = "take 3 (rev (history foo_store))" and rest = "drop 3 (rev (history foo_store))"]
    foo_scanned_matches search_foo_upper_example
  by simp

text \<open>C7 as it was stated: with \<open>limit = 0\<close> the result is all three matches, not none.\<close>

theorem search_limit_zero_counterexample:
  "map content (search ascii_lower ''foo'' (Some 0) foo_store) = [''foo3'', ''foo2'', ''foo1'']"
  by (rule search_foo_zero_example)

text \<open>
  C6 (as amended). On a log of \<open>N > 0\<close> entries \<open>get_entry 1\<close> selects the newest entry,
  \<open>get_entry N\<close> the oldest, and an index \<open>k\<close> from 1 to \<open>N\<close> the \<open>k\<close>-th newest. An index
  below 1 or above \<open>N\<close> selects nothing and is reported with the range \<open>1-N\<close>. On an empty
  log every index selects nothing and is reported as ``No clipboard history.'', without a
  range. In both cases the call returns normally.
\<close>

theorem get_entry_index:
  "(history s \<noteq> [] \<longrightarrow>
      get_entry s 1 = Inr (last (history s)) \<and>
      get_entry s (int (length (history s))) = Inr (hd (history s))) \<and>
   (1 \<le> k \<and> k \<le> int (length (history s)) \<longrightarrow>
      get_entry s k = Inr (history s ! (length (history s) - nat k))) \<and>
   (history s \<noteq> [] \<and> (i < 1 \<or> int (length (history s)) < i) \<longrightarrow>
      get_entry s i = Inl (InvalidIndex (length (history s)))) \<and>
   (history r = [] \<longrightarrow> get_entry r j = Inl NoHistory)"
proof (intro conjI impI)
  assume ne: "history s \<noteq> []"
  then have pos: "0 < length (history s)" by simp
  from ne show "get_entry s 1 = Inr (last (history s))"
    by (simp add: get_entry_def Let_def rev_nth last_conv_nth)
  have "nat (int (length (history s)) - 1) = length (history s) - 1" by linarith
  with ne pos show "get_entry s (int (length (history s))) = Inr (hd (history s))"
    by (simp add: get_entry_def Let_def rev_nth hd_conv_nth)
next
  assume a: "1 \<le> k \<and> k \<le> int (length (history s))"
  then have ne: "history s \<noteq> []" by auto
  from a have "nat (k - 1) < length (history s)" by linarith
  moreover from a have "length (history s) - Suc (nat (k - 1)) = length (history s) - nat k"
    by linarith
  ultimately show "get_entry s k = Inr (history s ! (length (history s) - nat k))"
    using a ne by (simp add: get_entry_def Let_def rev_nth)
next
  assume "history s \<noteq> [] \<and> (i < 1 \<or> int (length (history s)) < i)"
  then show "get_entry s i = Inl (InvalidIndex (length (history s)))"
    by (auto simp: get_entry_def Let_def)
next
  assume "history r = []"
  then show "get_entry r j = Inl NoHistory"
    by (simp add: get_entry_def)
qed

text \<open>C6, on a log of three entries and on the empty log.\<close>

theorem get_entry_index_witness:
  "get_entry week_store 1 = Inr entry_c \<and> get_entry week_store 3 = Inr entry_a \<and>
   get_entry week_store 2 = Inr entry_b \<and>
   get_entry week_store 0 = Inl (InvalidIndex 3) \<and>
   get_entry week_store 4 = Inl (InvalidIndex 3) \<and>
   get_entry fresh_store 1 = Inl NoHistory"
  using get_entry_index [where s = week_store and k = 2 and i = 0 and r = fresh_store and j = 1]
    get_entry_index [where s = week_store and k = 2 and i = 4 and r = fresh_store and j = 1]
  by (simp add: week_store_def fresh_store_def)

text \<open>
  C6 as it was stated: on the empty log the failure of \<open>get_entry 1\<close> is not the one that
  reports a range.
\<close>

theorem get_entry_empty_counterexample:
  "history fresh_store = [] \<and> get_entry fresh_store 1 = Inl NoHistory \<and>
   get_entry fresh_store 1 \<noteq> Inl (InvalidIndex 0)"
  by (simp add: get_entry_def fresh_store_def)

text \<open>
  C9. On a non-empty log \<open>stats\<close> computes the total size as the sum of the stored sizes
  and the average as that total divided by the number of entries; the expression for the
  average is 0 at zero entries. For stored sizes 10, 20, 30 the total is 60 and the average 20.
\<close>

theorem stats_totals:
  "(history s \<noteq> [] \<longrightarrow>
      stats s = Some \<lparr>total_entries = length (history s),
                      total_size = sum_list (map size_bytes (history s)),
                      avg_size = real_of_int (sum_list (map size_bytes (history s))) /
                                 real (length (history s))\<rparr>) \<and>
   average t 0 = 0 \<and>
   map size_bytes (history sized_store) = [10, 20, 30] \<and>
   map_option total_size (stats sized_store) = Some 60 \<and>
   map_option avg_size (stats sized_store) = Some 20"
proof (intro conjI impI)
  assume "history s \<noteq> []"
  then show "stats s = Some \<lparr>total_entries = length (history s),
                      total_size = sum_list (map size_bytes (history s)),
                      avg_size = real_of_int (sum_list (map size_bytes (history s))) /
                                 real (length (history s))\<rparr>"
    by (simp add: stats_def Let_def average_def)
next
  show "average t 0 = 0" by (simp add: average_def)
next
  have h: "history sized_store =
     [new_entry ''2024-03-01T09:00:01'' ''0123456789'',
      new_entry ''2024-03-01T09:00:02'' ''01234567890123456789'',
      new_entry ''2024-03-01T09:00:03'' ''012345678901234567890123456789'']"
    by (simp add: sized_store_def fresh_store_def add_entry_def new_entry_def
        config_get_max_entries_def Let_def save_data_def)
  then show "map size_bytes (history sized_store) = [10, 20, 30]"
    by (simp add: new_entry_def)
  from h show "map_option total_size (stats sized_store) = Some 60"
    by (simp add: stats_def Let_def new_entry_def)
  from h show "map_option avg_size (stats sized_store) = Some 20"
    by (simp add: stats_def Let_def new_entry_def average_def)
qed

text \<open>C9, on a log with sizes 5, 9, 5.\<close>

theorem stats_totals_witness:
  "stats week_store = Some \<lparr>total_entries = 3, total_size = 19, avg_size = 19 / 3\<rparr>"
  using stats_totals [where s = week_store]
  by (simp add: example_defs)

text \<open>
  C10. \<open>days = 0\<close> is taken as no \<open>days\<close>: \<open>clear\<close> with \<open>days = 0\<close> does what \<open>clear\<close>
  without \<open>days\<close> does, which is to empty the log when the answer read is \<open>yes\<close> and to
  leave it as it is otherwise, and \<open>list_entries\<close> with \<open>days = 0\<close> filters nothing.
\<close>

theorem zero_days_is_absent:
  "clear lower now response s (Some 0) = clear lower now response s None \<and>
   clear lower now response s (Some 0) =
     Inr (None, save_data (if lower response = ''yes'' then s\<lparr>history := []\<rparr> else s)) \<and>
   list_entries now s limit (Some 0) = list_entries now s limit None \<and>
   list_entries now s None (Some 0) = Inr (rev (history s))"
  by (simp add: clear_def truthy_def list_entries_def)

lemma ascii_lower_yes: "ascii_lower ''YES'' = ''yes''"
  by code_simp

text \<open>C10, on a log whose entries are all older than 0 days.\<close>

theorem zero_days_is_absent_witness:
  "clear ascii_lower 63845658000000000 ''no'' week_store (Some 0) =
     Inr (None, save_data week_store) \<and>
   clear ascii_lower 63845658000000000 ''YES'' week_store (Some 0) =
     Inr (None, save_data (week_store\<lparr>history := []\<rparr>)) \<and>
   list_entries 63845658000000000 week_store None (Some 0) = Inr [entry_c, entry_b, entry_a]"
proof -
  have h: "rev (history week_store) = [entry_c, entry_b, entry_a]"
    by (simp add: week_store_def)
  note no = zero_days_is_absent [where lower = ascii_lower and now = 63845658000000000
      and response = "''no''" and s = week_store and limit = None]
  note yes = zero_days_is_absent [where lower = ascii_lower and now = 63845658000000000
      and response = "''YES''" and s = week_store and limit = None]
  have "clear ascii_lower 63845658000000000 ''no'' week_store (Some 0) =
      Inr (None, save_data week_store)"
    using no [THEN conjunct2, THEN conjunct1] by (simp add: ascii_lower_no)
  moreover have "clear ascii_lower 63845658000000000 ''YES'' week_store (Some 0) =
      Inr (None, save_data (week_store\<lparr>history := []\<rparr>))"
    using yes [THEN conjunct2, THEN conjunct1] by (simp add: ascii_lower_yes)
  moreover have "list_entries 63845658000000000 week_store None (Some 0) =
      Inr [entry_c, entry_b, entry_a]"
    using no [THEN conjunct2, THEN conjunct2, THEN conjunct2] by (simp add: h)
  ultimately show ?thesis by blast
qed

section \<open>Persistence round trip\<close>

lemma hex_val_hex_digit: "d < 16 \<Longrightarrow> hex_val (hex_digit d) = Some d"
  by (auto simp: hex_val_def hex_digit_def Let_def)

lemma scanstring_escape_char:
  "scanstring (escape_char c @ tail) acc = scanstring tail (acc @ [c])"
proof -
  consider (quote) "c = CHR 0x22" | (bs) "c = CHR 0x5C" | (nl) "c = CHR 0x0A"
    | (cr) "c = CHR 0x0D" | (tab) "c = CHR 0x09" | (bsp) "c = CHR 0x08" | (ff) "c = CHR 0x0C"
    | (ctl) "c \<noteq> CHR 0x22" "c \<noteq> CHR 0x5C" "c \<noteq> CHR 0x0A" "c \<noteq> CHR 0x0D" "c \<noteq> CHR 0x09"
        "c \<noteq> CHR 0x08" "c \<noteq> CHR 0x0C" "(of_char c :: nat) < 32"
    | (plain) "c \<noteq> CHR 0x22" "c \<noteq> CHR 0x5C" "\<not> (of_char c :: nat) < 32"
    by (cases "(of_char c :: nat) < 32") auto
  then show ?thesis
  proof cases
    case quote then show ?thesis by (simp add: escape_char_def unescape_def)
  next
    case bs then show ?thesis by (simp add: escape_char_def unescape_def)
  next
    case nl then show ?thesis by (simp add: escape_char_def unescape_def)
  next
    case cr then show ?thesis by (simp add: escape_char_def unescape_def)
  next
    case tab then show ?thesis by (simp add: escape_char_def unescape_def)
  next
    case bsp then show ?thesis by (simp add: escape_char_def unescape_def)
  next
    case ff then show ?thesis by (simp add: escape_char_def unescape_def)
  next
    case ctl
    let ?n = "of_char c :: nat"
    have h1: "hex_val (hex_digit (?n div 16)) = Some (?n div 16)"
      using ctl(8) by (intro hex_val_hex_digit) simp
    have h2: "hex_val (hex_digit (?n mod 16)) = Some (?n mod 16)"
      by (intro hex_val_hex_digit) simp
    have h0: "hex_val CHR ''0'' = Some 0" by (simp add: hex_val_def)
    have hex: "hex4 (CHR ''0'' # CHR ''0'' # hex_digit (?n div 16) # hex_digit (?n mod 16) # tail) = Some ?n"
      by (simp add: hex4_def h0 h1 h2)
    have "decode_u (CHR ''0'' # CHR ''0'' # hex_digit (?n div 16) # hex_digit (?n mod 16) # tail) = Some ([c], 4)"
      using ctl(8) by (simp add: decode_u_def hex utf8_chr_def)
    with ctl show ?thesis by (simp add: escape_char_def)
  next
    case plain
    then have "escape_char c = [c]"
      by (auto simp: escape_char_def)
    with plain show ?thesis by simp
  qed
qed

lemma scanstring_escaped:
  "scanstring (concat (map escape_char s) @ CHR 0x22 # rest) acc = Some (acc @ s, rest)"
proof (induction s arbitrary: acc)
  case Nil
  show ?case by simp
next
  case (Cons c s)
  have "scanstring (concat (map escape_char (c # s)) @ CHR 0x22 # rest) acc =
        scanstring (escape_char c @ (concat (map escape_char s) @ CHR 0x22 # rest)) acc"
    by simp
  also have "\<dots> = scanstring (concat (map escape_char s) @ CHR 0x22 # rest) (acc @ [c])"
    by (rule scanstring_escape_char)
  also have "\<dots> = Some ((acc @ [c]) @ s, rest)" by (rule Cons.IH)
  finally show ?case by simp
qed

lemma show_nat_not_Nil: "show_nat n \<noteq> []"
  by (subst show_nat.simps) simp

lemma of_char_zero: "(of_char CHR ''0'' :: nat) = 48"
  by simp

lemma char_of_48: "char_of (48::nat) = CHR ''0''"
  by (metis of_char_zero char_of_char)

lemma is_digit_char_of: "d < 10 \<Longrightarrow> is_digit (char_of (48 + d :: nat))"
  by (simp add: is_digit_def)

lemma show_nat_digits: "\<forall>c\<in>set (show_nat n). is_digit c"
proof (induction n rule: show_nat.induct)
  case (1 n)
  show ?case
  proof (cases "n < 10")
    case True
    then show ?thesis by (subst show_nat.simps) (simp add: is_digit_char_of)
  next
    case False
    with 1 show ?thesis by (subst show_nat.simps) (simp add: is_digit_char_of)
  qed
qed

lemma digit_value_char_of: "d < 10 \<Longrightarrow> (of_char (char_of (48 + d :: nat)) :: int) - 48 = int d"
proof -
  assume "d < 10"
  then have "(of_char (char_of (48 + d)) :: nat) = 48 + d" by simp
  then have "int (of_char (char_of (48 + d))) = int (48 + d)" by simp
  then have "(of_char (char_of (48 + d)) :: int) = int (48 + d)"
    by (simp only: of_nat_of_char)
  then show ?thesis by simp
qed

lemma int_div_mod_10: "10 * int (n div 10) + int (n mod 10) = int n"
proof -
  have "10 * (n div 10) + n mod 10 = n" by simp
  then have "int (10 * (n div 10) + n mod 10) = int n" by (rule arg_cong)
  then show ?thesis by (simp only: of_nat_add of_nat_mult of_nat_numeral)
qed

lemma digits_value_snoc: "digits_value (ds @ [c]) = 10 * digits_value ds + (of_char c - 48)"
  by (simp add: digits_value_def)

lemma digits_value_show_nat: "digits_value (show_nat n) = int n"
proof (induction n rule: show_nat.induct)
  case (1 n)
  show ?case
  proof (cases "n < 10")
    case True
    then show ?thesis
      by (subst show_nat.simps) (simp add: digits_value_def digit_value_char_of)
  next
    case False
    then have "digits_value (show_nat n) =
        10 * digits_value (show_nat (n div 10)) + int (n mod 10)"
      by (subst show_nat.simps) (simp add: digits_value_snoc digit_value_char_of)
    with False 1 show ?thesis by (simp add: int_div_mod_10)
  qed
qed

lemma hd_show_nat_zero: "hd (show_nat n) = CHR ''0'' \<longleftrightarrow> n = 0"
proof (induction n rule: show_nat.induct)
  case (1 n)
  show ?case
  proof (cases "n < 10")
    case True
    then have "(of_char (char_of (48 + n)) :: nat) = 48 + n" by simp
    then have "char_of (48 + n) = CHR ''0'' \<longleftrightarrow> n = 0"
      by (metis of_char_zero char_of_48 add.right_neutral add_left_cancel)
    with True show ?thesis by (subst show_nat.simps) simp
  next
    case False
    then have "hd (show_nat n) = hd (show_nat (n div 10))"
      by (subst show_nat.simps) (simp add: show_nat_not_Nil)
    with False 1 show ?thesis by simp
  qed
qed

lemma takeWhile_digits_show_nat:
  "\<not> is_digit c \<Longrightarrow> takeWhile is_digit (show_nat n @ c # r) = show_nat n"
  using show_nat_digits[of n] by (simp add: takeWhile_append2)

lemma scan_number_show_nat:
  assumes "\<not> is_digit c" "c \<noteq> CHR ''.''" "c \<noteq> CHR ''e''" "c \<noteq> CHR ''E''"
  shows "scan_number (show_nat n @ c # r) = Some (int n, c # r)"
proof -
  obtain d ds where sn: "show_nat n = d # ds"
    using show_nat_not_Nil[of n] by (cases "show_nat n") auto
  have dig: "is_digit d" using show_nat_digits[of n] sn by simp
  then have nm: "d \<noteq> CHR ''-''" by (auto simp: is_digit_def)
  show ?thesis
  proof (cases "n = 0")
    case True
    then have "show_nat n = ''0''" by (subst show_nat.simps) (simp add: char_of_48)
    with assms True show ?thesis
      by (simp add: scan_number_def digits_value_def)
  next
    case False
    then have "d \<noteq> CHR ''0''" using hd_show_nat_zero[of n] sn by simp
    moreover have "takeWhile is_digit (d # ds @ c # r) = d # ds"
      using takeWhile_digits_show_nat[OF assms(1), of n r] sn by simp
    moreover have "digits_value (d # ds) = int n"
      using digits_value_show_nat[of n] sn by simp
    ultimately show ?thesis
      using assms nm sn by (simp add: scan_number_def Let_def)
  qed
qed

lemma scan_number_show_int:
  assumes "\<not> is_digit c" "c \<noteq> CHR ''.''" "c \<noteq> CHR ''e''" "c \<noteq> CHR ''E''"
  shows "scan_number (show_int i @ c # r) = Some (i, c # r)"
proof (cases "i < 0")
  case False
  then show ?thesis
    using scan_number_show_nat[OF assms, of "nat i" r] by (simp add: show_int_def)
next
  case True
  let ?m = "nat (- i)"
  obtain d ds where sn: "show_nat ?m = d # ds"
    using show_nat_not_Nil[of ?m] by (cases "show_nat ?m") auto
  have dig: "is_digit d" using show_nat_digits[of ?m] sn by simp
  from True have pos: "?m \<noteq> 0" by simp
  then have "d \<noteq> CHR ''0''" using hd_show_nat_zero[of ?m] sn by simp
  moreover have "takeWhile is_digit (d # ds @ c # r) = d # ds"
    using takeWhile_digits_show_nat[OF assms(1), of ?m r] sn by simp
  moreover have "digits_value (d # ds) = int ?m"
    using digits_value_show_nat[of ?m] sn by simp
  ultimately show ?thesis
    using assms True sn by (simp add: scan_number_def Let_def show_int_def)
qed

lemma scan_scalar_show_int:
  assumes "\<not> is_digit c" "c \<noteq> CHR ''.''" "c \<noteq> CHR ''e''" "c \<noteq> CHR ''E''"
  shows "scan_scalar (show_int i @ c # r) = Some (JInt i, c # r)"
proof -
  obtain d ds where si: "show_int i = d # ds"
    using show_nat_not_Nil by (cases "show_int i") (auto simp: show_int_def split: if_splits)
  have "d \<noteq> CHR 0x22"
  proof (cases "i < 0")
    case True
    with si show ?thesis by (auto simp: show_int_def)
  next
    case False
    with si have "show_nat (nat i) = d # ds" by (simp add: show_int_def)
    then have "is_digit d" using show_nat_digits[of "nat i"] by simp
    then show ?thesis by (auto simp: is_digit_def)
  qed
  then show ?thesis
    using scan_number_show_int[OF assms, of i r] si by (simp add: scan_scalar_def)
qed

lemma skip_ws_not_ws: "\<not> is_ws c \<Longrightarrow> skip_ws (c # r) = c # r"
  by (simp add: skip_ws_def)

lemma skip_ws_space: "skip_ws (CHR '' '' # r) = skip_ws r"
  by (simp add: skip_ws_def is_ws_def)

lemma skip_ws_newline_indent:
  "\<not> is_ws c \<Longrightarrow> skip_ws (newline_indent n @ c # r) = c # r"
proof -
  assume c: "\<not> is_ws c"
  have "\<forall>x\<in>set (newline_indent n). is_ws x"
    by (auto simp: newline_indent_def is_ws_def)
  then have "dropWhile is_ws (newline_indent n @ c # r) = dropWhile is_ws (c # r)"
    by (simp add: dropWhile_append2)
  with c show ?thesis by (simp add: skip_ws_def)
qed

lemma not_ws_chars:
  "\<not> is_ws (CHR 0x22)" "\<not> is_ws (CHR '':'')" "\<not> is_ws (CHR '','')"
  "\<not> is_ws (CHR ''{'')" "\<not> is_ws (CHR ''}'')" "\<not> is_ws (CHR ''['')" "\<not> is_ws (CHR '']'')"
  by (simp_all add: is_ws_def)

lemma is_digit_not_ws: "is_digit c \<Longrightarrow> \<not> is_ws c"
  by (auto simp: is_digit_def is_ws_def)

lemma skip_ws_show_int: "skip_ws (show_int i @ r) = show_int i @ r"
proof -
  obtain d ds where si: "show_int i = d # ds"
    using show_nat_not_Nil by (cases "show_int i") (auto simp: show_int_def split: if_splits)
  have "\<not> is_ws d"
  proof (cases "i < 0")
    case True
    with si show ?thesis by (auto simp: show_int_def is_ws_def)
  next
    case False
    with si have "show_nat (nat i) = d # ds" by (simp add: show_int_def)
    then have "is_digit d" using show_nat_digits[of "nat i"] by simp
    then show ?thesis by (rule is_digit_not_ws)
  qed
  with si show ?thesis by (simp add: skip_ws_not_ws)
qed

lemma newline_not_number_char:
  "\<not> is_digit (CHR 0x0A)" "CHR 0x0A \<noteq> CHR ''.''" "CHR 0x0A \<noteq> CHR ''e''" "CHR 0x0A \<noteq> CHR ''E''"
  by (simp_all add: is_digit_def)

lemma parse_members_string_member:
  "parse_members
     (concat (map escape_char k) @ CHR 0x22 # CHR '':'' # CHR '' '' # CHR 0x22 #
        concat (map escape_char v) @ CHR 0x22 # CHR '','' # newline_indent n @ CHR 0x22 # R) ps =
   parse_members R (ps @ [(k, JStr v)])"
  by (subst parse_members.simps)
    (simp add: scanstring_escaped skip_ws_not_ws skip_ws_space not_ws_chars
      skip_ws_newline_indent scan_scalar_def)

lemma parse_members_last_int_member:
  "parse_members
     (concat (map escape_char k) @ CHR 0x22 # CHR '':'' # CHR '' '' #
        show_int i @ newline_indent n @ CHR ''}'' # R) ps =
   Some (ps @ [(k, JInt i)], R)"
proof -
  have nl: "newline_indent n @ CHR ''}'' # R = CHR 0x0A # replicate n CHR '' '' @ CHR ''}'' # R"
    by (simp add: newline_indent_def)
  have sc: "scan_scalar (show_int i @ newline_indent n @ CHR ''}'' # R) =
      Some (JInt i, newline_indent n @ CHR ''}'' # R)"
    unfolding nl by (rule scan_scalar_show_int[OF newline_not_number_char])
  show ?thesis
    by (subst parse_members.simps)
      (simp add: scanstring_escaped skip_ws_not_ws skip_ws_space not_ws_chars
        skip_ws_newline_indent skip_ws_show_int sc)
qed

lemma parse_object_dump_entry:
  "parse_object (tl (dump_entry e) @ R) = Some (members_of e, R)"
proof -
  define T3 where "T3 = concat (map escape_char ''size'') @ CHR 0x22 # CHR '':'' # CHR '' '' #
        show_int (size_bytes e) @ newline_indent 2 @ CHR ''}'' # R"
  define T2 where "T2 = concat (map escape_char ''timestamp'') @ CHR 0x22 # CHR '':'' # CHR '' '' #
        CHR 0x22 # concat (map escape_char (timestamp e)) @ CHR 0x22 # CHR '','' #
        newline_indent 4 @ CHR 0x22 # T3"
  define T1 where "T1 = concat (map escape_char ''content'') @ CHR 0x22 # CHR '':'' # CHR '' '' #
        CHR 0x22 # concat (map escape_char (content e)) @ CHR 0x22 # CHR '','' #
        newline_indent 4 @ CHR 0x22 # T2"
  have eq: "tl (dump_entry e) @ R = newline_indent 4 @ CHR 0x22 # T1"
    by (simp add: dump_entry_def dump_str_def T1_def T2_def T3_def)
  have "parse_members T1 [] = parse_members T2 [(''content'', JStr (content e))]"
    unfolding T1_def by (subst parse_members_string_member) simp
  also have "\<dots> = parse_members T3
      [(''content'', JStr (content e)), (''timestamp'', JStr (timestamp e))]"
    unfolding T2_def by (subst parse_members_string_member) simp
  also have "\<dots> = Some (members_of e, R)"
    unfolding T3_def by (subst parse_members_last_int_member) (simp add: members_of_def)
  finally have "parse_members T1 [] = Some (members_of e, R)" .
  then show ?thesis
    unfolding eq by (simp add: parse_object_def skip_ws_newline_indent not_ws_chars)
qed

lemma dump_entry_brace: "\<exists>u. dump_entry e = CHR ''{'' # u"
  by (simp add: dump_entry_def)

lemma dump_items_brace: "es \<noteq> [] \<Longrightarrow> \<exists>t. dump_items es = CHR ''{'' # t"
proof (induction es rule: dump_items.induct)
  case 1
  then show ?case by simp
next
  case (2 e)
  show ?case using dump_entry_brace[of e] by simp
next
  case (3 e e' es)
  obtain u where "dump_entry e = CHR ''{'' # u"
    using dump_entry_brace[of e] by blast
  then show ?case by simp
qed

lemma parse_elements_dump_items:
  "es \<noteq> [] \<Longrightarrow>
   parse_elements (dump_items es @ newline_indent 0 @ CHR '']'' # R) objs =
     Some (objs @ map members_of es, R)"
proof (induction es arbitrary: objs rule: dump_items.induct)
  case 1
  then show ?case by simp
next
  case (2 e)
  obtain u where u: "dump_entry e = CHR ''{'' # u"
    using dump_entry_brace[of e] by blast
  have po: "parse_object (u @ newline_indent 0 @ CHR '']'' # R) =
      Some (members_of e, newline_indent 0 @ CHR '']'' # R)"
    using parse_object_dump_entry[of e "newline_indent 0 @ CHR '']'' # R"] u by simp
  have "dump_items [e] @ newline_indent 0 @ CHR '']'' # R =
      CHR ''{'' # (u @ newline_indent 0 @ CHR '']'' # R)"
    using u by simp
  then show ?case
    by (simp only:, subst parse_elements.simps)
      (simp add: po skip_ws_newline_indent not_ws_chars)
next
  case (3 e e' es)
  let ?next = "dump_items (e' # es) @ newline_indent 0 @ CHR '']'' # R"
  obtain u where u: "dump_entry e = CHR ''{'' # u"
    using dump_entry_brace[of e] by blast
  obtain t where t: "dump_items (e' # es) = CHR ''{'' # t"
    using dump_items_brace[of "e' # es"] by auto
  have sk: "skip_ws (newline_indent 2 @ ?next) = ?next"
    unfolding t using skip_ws_newline_indent[OF not_ws_chars(4)] by simp
  have po: "parse_object (u @ (CHR '','' # newline_indent 2 @ ?next)) =
      Some (members_of e, CHR '','' # newline_indent 2 @ ?next)"
    using parse_object_dump_entry[of e "CHR '','' # newline_indent 2 @ ?next"] u by simp
  have "dump_items (e # e' # es) @ newline_indent 0 @ CHR '']'' # R =
      CHR ''{'' # (u @ (CHR '','' # newline_indent 2 @ ?next))"
    using u by simp
  then have "parse_elements (dump_items (e # e' # es) @ newline_indent 0 @ CHR '']'' # R) objs =
      parse_elements ?next (objs @ [members_of e])"
    by (simp only:, subst parse_elements.simps)
      (simp add: po skip_ws_not_ws not_ws_chars sk)
  also have "\<dots> = Some ((objs @ [members_of e]) @ map members_of (e' # es), R)"
    by (rule "3.IH") simp
  finally show ?case by simp
qed

lemma json_loads_json_dump: "json_loads (json_dump h) = Some (map members_of h)"
proof (cases "h = []")
  case True
  then show ?thesis
    by (simp add: json_dump_def json_loads_def parse_array_def skip_ws_not_ws not_ws_chars
        skip_ws_def)
next
  case False
  let ?body = "dump_items h @ newline_indent 0 @ CHR '']'' # []"
  obtain t where b: "dump_items h = CHR ''{'' # t"
    using dump_items_brace[OF False] by auto
  have t: "json_dump h = CHR ''['' # newline_indent 2 @ ?body"
    using False by (simp add: json_dump_def)
  have sk: "skip_ws (newline_indent 2 @ ?body) = ?body"
    unfolding b using skip_ws_newline_indent[OF not_ws_chars(4)] by simp
  have "parse_array (newline_indent 2 @ ?body) = parse_elements ?body []"
    unfolding parse_array_def sk unfolding b by simp
  also have "\<dots> = Some ([] @ map members_of h, [])"
    using False by (rule parse_elements_dump_items)
  finally have pa: "parse_array (newline_indent 2 @ ?body) = Some (map members_of h, [])"
    by simp
  show ?thesis
    unfolding t by (simp add: json_loads_def skip_ws_not_ws not_ws_chars pa) (simp add: skip_ws_def)
qed

lemma entry_of_object_members_of: "entry_of_object (members_of e) = Inr e"
  by (simp add: entry_of_object_def members_of_def dict_get_def)

lemma entries_of_objects_members_of: "entries_of_objects (map members_of h) = Inr h"
  by (induction h) (simp_all add: entry_of_object_members_of)

lemma json_load_json_dump: "json_load (json_dump h) = Inr h"
  by (simp add: json_load_def json_loads_json_dump entries_of_objects_members_of)

text \<open>
  C4. The text that \<open>save_data\<close> writes for a log is read back by \<open>json.load\<close> as the same
  sequence of entries, equal in content, timestamp and size and in the same order. Hence
  \<open>load_data\<close> after \<open>save_data\<close>, and a manager newly constructed on the data directory
  that \<open>save_data\<close> leaves, hold the log that was saved.
\<close>

theorem persistence_round_trip:
  "json_load (json_dump h) = Inr h \<and>
   history_file (save_data s) = Some (json_dump (history s)) \<and>
   map_sum id history (load_data (save_data s)) = Inr (history s) \<and>
   map_sum id history
     (init (history_file (save_data s)) (config_file (save_data s)) mb) = Inr (history s)"
proof (intro conjI)
  show "json_load (json_dump h) = Inr h" by (rule json_load_json_dump)
  show "history_file (save_data s) = Some (json_dump (history s))"
    by (simp add: save_data_def)
  show "map_sum id history (load_data (save_data s)) = Inr (history s)"
    by (simp add: load_data_def save_data_def json_load_json_dump save_config_def
        split: option.splits)
  show "map_sum id history
     (init (history_file (save_data s)) (config_file (save_data s)) mb) = Inr (history s)"
    by (simp add: init_def load_data_def save_data_def json_load_json_dump save_config_def
        split: option.splits)
qed

lemma fresh_store_init: "init None None 10 = Inr fresh_store"
  by (simp add: init_def load_data_def save_config_def fresh_store_def)

lemma week_store_init:
  "init (Some (json_dump [entry_a, entry_b, entry_c]))
     (Some \<lparr>max_entries = Some 1000, retention_days = Some 30\<rparr>) 10 =
   Inr (week_store\<lparr>disk_writes := 0\<rparr>)"
  by (simp add: init_def load_data_def json_load_json_dump week_store_def fresh_store_def)

lemma week_store_history: "history week_store = [entry_a, entry_b, entry_c]"
  by (simp add: week_store_def)

text \<open>C4, for the log of three entries.\<close>

theorem persistence_round_trip_witness:
  "json_load (json_dump [entry_a, entry_b, entry_c]) = Inr [entry_a, entry_b, entry_c] \<and>
   map_sum id history
     (init (history_file (save_data week_store)) (config_file (save_data week_store)) 10) =
     Inr [entry_a, entry_b, entry_c]"
proof -
  note rt = persistence_round_trip [where h = "[entry_a, entry_b, entry_c]" and s = week_store
      and mb = 10]
  have "map_sum id history
     (init (history_file (save_data week_store)) (config_file (save_data week_store)) 10) =
     Inr (history week_store)"
    using rt [THEN conjunct2, THEN conjunct2, THEN conjunct2] .
  then have "map_sum id history
     (init (history_file (save_data week_store)) (config_file (save_data week_store)) 10) =
     Inr [entry_a, entry_b, entry_c]"
    by (simp only: week_store_history)
  with rt [THEN conjunct1] show ?thesis by (rule conjI)
qed

section \<open>Pruning by age\<close>

lemma since_iff_not_before:
  "fromisoformat (timestamp e) \<noteq> None \<Longrightarrow> since c e \<longleftrightarrow> \<not> before c e"
  by (auto simp: since_def before_def split: option.splits)

lemma length_filter_before:
  "int (length h) - int (length (filter (\<lambda>e. \<not> before c e) h)) = int (length (filter (before c) h))"
  using sum_length_filter_compl[of "before c" h] by simp

lemma filter_since_not_before:
  assumes "\<forall>e\<in>set h. fromisoformat (timestamp e) \<noteq> None"
  shows "filter_since c h = Inr (filter (\<lambda>e. \<not> before c e) h)"
proof -
  from assms have "filter (since c) h = filter (\<lambda>e. \<not> before c e) h"
    by (intro filter_cong refl) (simp add: since_iff_not_before)
  with assms show ?thesis by (simp add: filter_since_valid)
qed

lemma clear_days_result:
  assumes "0 < d" "cutoff_of now d = Inr c"
    "\<forall>e\<in>set (history s). fromisoformat (timestamp e) \<noteq> None"
  shows "clear lower now response s (Some d) =
       Inr (Some (int (length (filter (before c) (history s)))),
            save_data (s\<lparr>history := filter (\<lambda>e. \<not> before c e) (history s)\<rparr>))"
  using assms
  by (simp add: clear_def truthy_def filter_since_not_before length_filter_before)

lemma init_after_save_data:
  "map_sum id history (init (history_file (save_data s)) (config_file (save_data s)) mb) =
     Inr (history s)"
  by (simp add: init_def load_data_def save_data_def json_load_json_dump save_config_def
      split: option.splits)

text \<open>
  C8 (as amended). On a log whose timestamps are well-formed, \<open>clear\<close> with a positive
  \<open>days\<close> for which \<open>now - days\<close> is a \<open>datetime\<close> keeps exactly the entries whose
  timestamp is not before \<open>now - days\<close> and reports the number of entries with a timestamp
  before it, the ones removed. Whenever \<open>clear\<close> with a positive \<open>days\<close> returns, every
  entry left has a timestamp \<open>>= now - days\<close>, the history file has been written and holds
  the text of the log that is left, and a manager newly constructed on the data directory
  holds that log.
\<close>

theorem clear_prunes_by_age:
  "(0 < d \<and> cutoff_of now d = Inr c \<and>
    (\<forall>e\<in>set (history s). fromisoformat (timestamp e) \<noteq> None) \<longrightarrow>
      clear lower now response s (Some d) =
        Inr (Some (int (length (filter (before c) (history s)))),
             save_data (s\<lparr>history := filter (\<lambda>e. \<not> before c e) (history s)\<rparr>))) \<and>
   (cutoff_of now d = Inr c \<longrightarrow> c = now - d * 86400000000) \<and>
   (0 < d \<and> cutoff_of now d = Inr c \<and>
    clear lower now response s (Some d) = Inr (n, s') \<longrightarrow>
      history s' = filter (\<lambda>e. \<not> before c e) (history s) \<and>
      (\<forall>e\<in>set (history s'). since c e) \<and>
      n = Some (int (length (filter (before c) (history s)))) \<and>
      history_file s' = Some (json_dump (history s')) \<and>
      disk_writes s' = Suc (disk_writes s) \<and>
      map_sum id history (init (history_file s') (config_file s') mb) = Inr (history s'))"
proof (intro conjI impI)
  assume "0 < d \<and> cutoff_of now d = Inr c \<and>
    (\<forall>e\<in>set (history s). fromisoformat (timestamp e) \<noteq> None)"
  then show "clear lower now response s (Some d) =
        Inr (Some (int (length (filter (before c) (history s)))),
             save_data (s\<lparr>history := filter (\<lambda>e. \<not> before c e) (history s)\<rparr>))"
    by (simp add: clear_days_result)
next
  assume "cutoff_of now d = Inr c"
  then show "c = now - d * 86400000000" by (rule cutoff_of_Inr)
next
  assume a: "0 < d \<and> cutoff_of now d = Inr c \<and>
    clear lower now response s (Some d) = Inr (n, s')"
  then have t: "truthy (Some d)" by (simp add: truthy_def)
  from a clear_days_Inr[OF t, of lower now response s n s']
  have k: "filter_since c (history s) = Inr (history s')"
    and n: "n = Some (int (length (history s)) - int (length (history s')))"
    and s': "s' = save_data (s\<lparr>history := history s'\<rparr>)"
    by auto
  from k have valid: "\<forall>e\<in>set (history s). fromisoformat (timestamp e) \<noteq> None"
    by (rule filter_since_Inr_valid)
  with k show h: "history s' = filter (\<lambda>e. \<not> before c e) (history s)"
    by (simp add: filter_since_not_before)
  from valid h show "\<forall>e\<in>set (history s'). since c e"
    by (simp add: since_iff_not_before)
  from n h show "n = Some (int (length (filter (before c) (history s))))"
    by (simp add: length_filter_before)
  have f: "history_file (save_data (s\<lparr>history := history s'\<rparr>)) = Some (json_dump (history s'))"
    by (simp add: save_data_def)
  with s' show "history_file s' = Some (json_dump (history s'))" by simp
  have "disk_writes (save_data (s\<lparr>history := history s'\<rparr>)) = Suc (disk_writes s)"
    by (simp add: save_data_def)
  with s' show "disk_writes s' = Suc (disk_writes s)" by simp
  have "map_sum id history
      (init (history_file (save_data (s\<lparr>history := history s'\<rparr>)))
         (config_file (save_data (s\<lparr>history := history s'\<rparr>))) mb) =
      Inr (history (s\<lparr>history := history s'\<rparr>))"
    by (rule init_after_save_data)
  with s' show "map_sum id history (init (history_file s') (config_file s') mb) =
      Inr (history s')"
    by simp
qed

text \<open>C8, pruning to seven days on 2024-03-10 at 09:00.\<close>

theorem clear_prunes_by_age_witness:
  "cutoff_of 63845658000000000 7 = Inr 63845053200000000 \<and>
   clear ascii_lower 63845658000000000 [] week_store (Some 7) =
     Inr (Some 1, save_data (week_store\<lparr>history := [entry_b, entry_c]\<rparr>)) \<and>
   before 63845053200000000 entry_a \<and> since 63845053200000000 entry_b \<and>
   since 63845053200000000 entry_c \<and>
   history_file (save_data (week_store\<lparr>history := [entry_b, entry_c]\<rparr>)) =
     Some (json_dump [entry_b, entry_c]) \<and>
   disk_writes (save_data (week_store\<lparr>history := [entry_b, entry_c]\<rparr>)) =
     Suc (disk_writes week_store) \<and>
   map_sum id history
     (init (history_file (save_data (week_store\<lparr>history := [entry_b, entry_c]\<rparr>)))
        (config_file (save_data (week_store\<lparr>history := [entry_b, entry_c]\<rparr>))) 10) =
     Inr [entry_b, entry_c]"
proof -
  let ?s' = "save_data (week_store\<lparr>history := [entry_b, entry_c]\<rparr>)"
  note inst = clear_prunes_by_age [where d = 7 and s = week_store and lower = ascii_lower
      and now = 63845658000000000 and response = "[]" and c = 63845053200000000
      and n = "Some 1" and s' = ?s' and mb = 10]
  have v: "\<forall>e\<in>set (history week_store). fromisoformat (timestamp e) \<noteq> None"
    by (simp add: example_defs iso_examples)
  have b: "before 63845053200000000 entry_a" "since 63845053200000000 entry_b"
    "since 63845053200000000 entry_c"
    by (simp_all add: example_defs iso_examples since_def before_def)
  have "filter (before 63845053200000000) (history week_store) = [entry_a]"
    "filter (\<lambda>e. \<not> before 63845053200000000 e) (history week_store) = [entry_b, entry_c]"
    by (simp_all add: example_defs iso_examples before_def)
  with inst [THEN conjunct1] cutoff_week v
  have r: "clear ascii_lower 63845658000000000 [] week_store (Some 7) = Inr (Some 1, ?s')"
    by simp
  have prem: "(0::int) < 7 \<and> cutoff_of 63845658000000000 7 = Inr 63845053200000000 \<and>
      clear ascii_lower 63845658000000000 [] week_store (Some 7) = Inr (Some 1, ?s')"
    using cutoff_week r by simp
  note after = inst [THEN conjunct2, THEN conjunct2, THEN mp, OF prem]
  have hs: "history ?s' = [entry_b, entry_c]" by (simp add: save_data_def)
  have "history_file ?s' = Some (json_dump [entry_b, entry_c]) \<and>
      disk_writes ?s' = Suc (disk_writes week_store) \<and>
      map_sum id history (init (history_file ?s') (config_file ?s') 10) =
        Inr [entry_b, entry_c]"
    using after [THEN conjunct2, THEN conjunct2, THEN conjunct2] unfolding hs .
  with r b cutoff_week show ?thesis by blast
qed

text \<open>
  C8 as it was stated: with \<open>days = 999999\<close> on 2024-03-10 the cutoff would lie before year
  1, so \<open>clear\<close> raises \<open>OverflowError\<close>; nothing is removed, saved or reported.
\<close>

theorem clear_overflow_counterexample:
  "cutoff_of 63845658000000000 999999 = Inl OverflowError \<and>
   clear ascii_lower 63845658000000000 [] week_store (Some 999999) = Inl OverflowError"
  by (simp add: clear_def truthy_def cutoff_overflow)

end
